theory Spec2Isabelle
  imports Main "HOL-Library.Word" "HOL-Library.Signed_Division" "HOL-Library.Sublist"
begin

unbundle bit_operations_syntax

section \<open>C integers, errors and array access\<close>

text \<open>
  The program works on C \<open>int\<close> values (32 bits on the AVX targets it is written for).
  Array elements and the searched value are kept as 32-bit words, because the vectorised
  code compares their bit patterns. Indices and counters are mathematical integers, and
  every index computation of the source is checked against the range of \<open>int\<close>: signed
  overflow is undefined behaviour in C and is an error value here, as are a read outside
  the array and a division by zero. \<open>InvalidArgument\<close> is the return value \<open>-1\<close>.
  Buffers grown with \<open>realloc\<close> are lists grown by appending (allocation is taken to
  succeed, so the table \<open>count_ones_table\<close>, used only to size a buffer, does not
  appear). Match counters are not range-checked: they count distinct visited indices.
\<close>

type_synonym word32 = "32 word"

datatype error = InvalidArgument | OutOfBounds | SignedOverflow | DivisionByZero

definition INT_MAX :: int where
  "INT_MAX = 2147483647"

definition INT_MIN :: int where
  "INT_MIN = - 2147483648"

definition NB_THREADS :: nat where
  "NB_THREADS = 8"

definition in_int :: "int \<Rightarrow> bool" where
  "in_int x = (INT_MIN \<le> x \<and> x \<le> INT_MAX)"

definition in_bounds :: "word32 list \<Rightarrow> int \<Rightarrow> bool" where
  "in_bounds U i = (0 \<le> i \<and> i < int (length U))"

definition bind_e :: "error + 'a \<Rightarrow> ('a \<Rightarrow> error + 'b) \<Rightarrow> error + 'b" where
  "bind_e m f = (case m of Inl e \<Rightarrow> Inl e | Inr x \<Rightarrow> f x)"

definition chk :: "int \<Rightarrow> error + int" where
  "chk x = (if in_int x then Inr x else Inl SignedOverflow)"

text \<open>C's \<open>/\<close> on \<open>int\<close>: truncation towards zero, undefined for a zero divisor.\<close>

definition c_quot :: "int \<Rightarrow> int \<Rightarrow> error + int" where
  "c_quot a b = (if b = 0 then Inl DivisionByZero else chk (a sdiv b))"

section \<open>Scalar implementation\<close>

text \<open>
  The loop of \<open>find\<close>: \<open>for (i = i_start; i <= i_end; i += i_step) if (U[i] == val) ...\<close>,
  with the match counter \<open>nb_find\<close> and the buffer \<open>*ind_val\<close> as accumulators.
  The result is \<open>None\<close> when the loop never ends (a zero step).
\<close>

partial_function (option) find_loop ::
  "word32 list \<Rightarrow> int \<Rightarrow> int \<Rightarrow> int \<Rightarrow> word32 \<Rightarrow> int \<Rightarrow> int list \<Rightarrow> (error + int \<times> int list) option"
where
  "find_loop U i i_end i_step val nb_find ind_val =
     (if i \<le> i_end then
        (if \<not> in_bounds U i then Some (Inl OutOfBounds)
         else if \<not> in_int (i + i_step) then Some (Inl SignedOverflow)
         else if U ! nat i = val
           then find_loop U (i + i_step) i_end i_step val (nb_find + 1) (ind_val @ [i])
           else find_loop U (i + i_step) i_end i_step val nb_find ind_val)
      else Some (Inr (nb_find, ind_val)))"

declare find_loop.simps [code]

definition find_c ::
  "word32 list \<Rightarrow> int \<Rightarrow> int \<Rightarrow> int \<Rightarrow> word32 \<Rightarrow> (error + int \<times> int list) option"
where
  "find_c U i_start i_end i_step val = find_loop U i_start i_end i_step val 0 []"

section \<open>Vector computing implementation\<close>

text \<open>
  \<open>_mm256_cmp_ps(..., _CMP_EQ_OS)\<close> compares the eight 32-bit lanes as IEEE-754 single
  precision numbers (the \<open>int\<close> data is only reinterpreted, not converted): a lane is
  equal when neither operand is a NaN pattern and the two patterns are the same or are
  both zeros (\<open>+0\<close> and \<open>-0\<close>). Denormals are compared exactly (default MXCSR).
  \<open>_mm256_movemask_ps\<close> gathers the lane results into the low eight bits of an integer,
  lane 0 in bit 0.
\<close>

definition is_nan :: "word32 \<Rightarrow> bool" where
  "is_nan x = (x AND 0x7F800000 = 0x7F800000 \<and> x AND 0x007FFFFF \<noteq> 0)"

definition is_zero :: "word32 \<Rightarrow> bool" where
  "is_zero x = (x = 0 \<or> x = 0x80000000)"

definition cmp_eq_os :: "word32 \<Rightarrow> word32 \<Rightarrow> bool" where
  "cmp_eq_os x y = (\<not> is_nan x \<and> \<not> is_nan y \<and> (x = y \<or> (is_zero x \<and> is_zero y)))"

fun movemask :: "bool list \<Rightarrow> nat" where
  "movemask [] = 0"
| "movemask (b # bs) = (if b then 1 else 0) + 2 * movemask bs"

definition loadu :: "word32 list \<Rightarrow> int \<Rightarrow> word32 list" where
  "loadu U i = take 8 (drop (nat i) U)"

definition block_in_bounds :: "word32 list \<Rightarrow> int \<Rightarrow> bool" where
  "block_in_bounds U i = (0 \<le> i \<and> i + 8 \<le> int (length U))"

definition block_mask :: "word32 list \<Rightarrow> int \<Rightarrow> word32 \<Rightarrow> nat" where
  "block_mask U i val = movemask (map (\<lambda>x. cmp_eq_os x val) (loadu U i))"

text \<open>The inner loop \<open>for (j = i; mask != 0; j++) { if (mask & 1) ...; mask >>= 1; }\<close>.\<close>

function mask_loop :: "int \<Rightarrow> nat \<Rightarrow> int \<Rightarrow> int list \<Rightarrow> int \<times> int list" where
  "mask_loop j msk nb_find ind_val =
     (if msk \<noteq> 0 then
        (if msk AND 1 \<noteq> 0
         then mask_loop (j + 1) (drop_bit 1 msk) (nb_find + 1) (ind_val @ [j])
         else mask_loop (j + 1) (drop_bit 1 msk) nb_find ind_val)
      else (nb_find, ind_val))"
  by pat_completeness auto
termination
  by (relation "measure (\<lambda>(j, msk, nb_find, ind_val). msk)") (auto simp: drop_bit_eq_div)

declare mask_loop.simps [simp del]

text \<open>
  The first loop of \<open>vect_find\<close>, \<open>for (i = i_start; i + 8 < i_end; i += i_step)\<close>, followed
  by its second loop \<open>for (; i <= i_end; i++)\<close>, which is the scalar loop with step 1.
\<close>

partial_function (option) vect_loop ::
  "word32 list \<Rightarrow> int \<Rightarrow> int \<Rightarrow> int \<Rightarrow> word32 \<Rightarrow> int \<Rightarrow> int list \<Rightarrow> (error + int \<times> int list) option"
where
  "vect_loop U i i_end i_step val nb_find ind_val =
     (if \<not> in_int (i + 8) then Some (Inl SignedOverflow)
      else if i + 8 < i_end then
        (if \<not> block_in_bounds U i then Some (Inl OutOfBounds)
         else if \<not> in_int (i + i_step) then Some (Inl SignedOverflow)
         else if block_mask U i val \<noteq> 0
           then vect_loop U (i + i_step) i_end i_step val
                  (fst (mask_loop i (block_mask U i val) nb_find ind_val))
                  (snd (mask_loop i (block_mask U i val) nb_find ind_val))
           else vect_loop U (i + i_step) i_end i_step val nb_find ind_val)
      else find_loop U i i_end 1 val nb_find ind_val)"

declare vect_loop.simps [code]

definition vect_find ::
  "word32 list \<Rightarrow> int \<Rightarrow> int \<Rightarrow> int \<Rightarrow> word32 \<Rightarrow> (error + int \<times> int list) option"
where
  "vect_find U i_start i_end i_step val =
     (if i_step smod 8 \<noteq> 0 then Some (Inl InvalidArgument)
      else vect_loop U i_start i_end i_step val 0 [])"

section \<open>Multithreaded implementation\<close>

subsection \<open>Segments\<close>

text \<open>
  The bounds given to thread \<open>t\<close>:
  \<open>t * ((i_end - i_start) / i_step + 1) / NB_THREADS * i_step + i_start\<close> and
  \<open>(t + 1) * ((i_end - i_start) / i_step + 1) / NB_THREADS * i_step + i_start - 1\<close>,
  evaluated left to right as C does.
\<close>

definition nb_strides :: "int \<Rightarrow> int \<Rightarrow> int \<Rightarrow> error + int" where
  "nb_strides i_start i_end i_step =
     bind_e (chk (i_end - i_start)) (\<lambda>d.
     bind_e (c_quot d i_step) (\<lambda>q.
     chk (q + 1)))"

definition seg_bound :: "int \<Rightarrow> int \<Rightarrow> int \<Rightarrow> int \<Rightarrow> error + int" where
  "seg_bound t i_start i_end i_step =
     bind_e (nb_strides i_start i_end i_step) (\<lambda>m.
     bind_e (chk (t * m)) (\<lambda>p.
     bind_e (c_quot p (int NB_THREADS)) (\<lambda>b.
     bind_e (chk (b * i_step)) (\<lambda>s.
     chk (s + i_start)))))"

definition segment :: "nat \<Rightarrow> int \<Rightarrow> int \<Rightarrow> int \<Rightarrow> error + int \<times> int" where
  "segment t i_start i_end i_step =
     bind_e (seg_bound (int t) i_start i_end i_step) (\<lambda>s.
     bind_e (seg_bound (int t + 1) i_start i_end i_step) (\<lambda>e1.
     bind_e (chk (e1 - 1)) (\<lambda>e.
     Inr (s, e))))"

fun segments :: "nat list \<Rightarrow> int \<Rightarrow> int \<Rightarrow> int \<Rightarrow> error + (int \<times> int) list" where
  "segments [] i_start i_end i_step = Inr []"
| "segments (t # ts) i_start i_end i_step =
     bind_e (segment t i_start i_end i_step) (\<lambda>se.
     bind_e (segments ts i_start i_end i_step) (\<lambda>rest.
     Inr (se # rest)))"

subsection \<open>Shared state, workers and the watcher\<close>

text \<open>
  The global variables of the program. They live as long as the process: a call of
  \<open>thread_find\<close> starts from the values the previous call left.
\<close>

record globals =
  stop_threads :: bool
  nb_find_thread :: "int list"
  U_threads :: "word32 list"
  val_threads :: word32

definition initial_globals :: globals where
  "initial_globals =
     \<lparr>stop_threads = False, nb_find_thread = replicate NB_THREADS 0, U_threads = [], val_threads = 0\<rparr>"

text \<open>
  A worker thread: its loop variable \<open>i\<close>, the bounds and step of its \<open>thread_data\<close>, its
  buffer \<open>*ind_val\<close>, and where it stands: in its first loop, in the second loop of the
  vector version, or after \<open>pthread_exit\<close>. Its counter is \<open>nb_find_thread[t]\<close>.
\<close>

datatype pc = Scanning | Tail | Exited

record worker =
  w_i :: int
  w_end :: int
  w_step :: int
  w_ind :: "int list"
  w_pc :: pc

text \<open>
  The thread running \<open>watch_nb_find\<close>: not started, in \<open>usleep\<close>, summing the counters
  (next counter to read, sum so far), or after \<open>pthread_exit\<close>.
\<close>

datatype watch = NotStarted | Sleeping | Summing nat int | Finished

record config =
  glob :: globals
  workers :: "worker list"
  watcher :: watch

definition set_worker :: "nat \<Rightarrow> worker \<Rightarrow> config \<Rightarrow> config" where
  "set_worker t w c = c\<lparr>workers := (workers c)[t := w]\<rparr>"

definition set_count :: "nat \<Rightarrow> int \<Rightarrow> config \<Rightarrow> config" where
  "set_count t n c = c\<lparr>glob := (glob c)\<lparr>nb_find_thread := (nb_find_thread (glob c))[t := n]\<rparr>\<rparr>"

text \<open>
  One iteration of the loop of \<open>scalar_thread_function\<close> in thread \<open>t\<close>: the loop test, the
  test of \<open>stop_threads\<close>, the comparison and the increment. A thread that has exited does
  nothing.
\<close>

definition scalar_thread_function :: "nat \<Rightarrow> config \<Rightarrow> error + config" where
  "scalar_thread_function t c =
     (let w = workers c ! t; g = glob c in
      if w_pc w \<noteq> Scanning then Inr c
      else if w_i w \<le> w_end w then
        (if stop_threads g then Inr (set_worker t (w\<lparr>w_pc := Exited\<rparr>) c)
         else if \<not> in_bounds (U_threads g) (w_i w) then Inl OutOfBounds
         else if \<not> in_int (w_i w + w_step w) then Inl SignedOverflow
         else if U_threads g ! nat (w_i w) = val_threads g
           then Inr (set_worker t (w\<lparr>w_i := w_i w + w_step w, w_ind := w_ind w @ [w_i w]\<rparr>)
                      (set_count t (nb_find_thread g ! t + 1) c))
           else Inr (set_worker t (w\<lparr>w_i := w_i w + w_step w\<rparr>) c))
      else Inr (set_worker t (w\<lparr>w_pc := Exited\<rparr>) c))"

text \<open>
  One step of \<open>vect_thread_function\<close> in thread \<open>t\<close>: one iteration of the first loop (its
  test, the test of \<open>stop_threads\<close>, the block comparison, the inner loop, the increment),
  the passage to the second loop, or one iteration of the second loop, which does not
  look at \<open>stop_threads\<close>.
\<close>

definition vect_thread_function :: "nat \<Rightarrow> config \<Rightarrow> error + config" where
  "vect_thread_function t c =
     (let w = workers c ! t; g = glob c in
      if w_pc w = Scanning then
        (if \<not> in_int (w_i w + 8) then Inl SignedOverflow
         else if w_i w + 8 < w_end w then
           (if stop_threads g then Inr (set_worker t (w\<lparr>w_pc := Exited\<rparr>) c)
            else if \<not> block_in_bounds (U_threads g) (w_i w) then Inl OutOfBounds
            else if \<not> in_int (w_i w + w_step w) then Inl SignedOverflow
            else if block_mask (U_threads g) (w_i w) (val_threads g) \<noteq> 0
              then (let r = mask_loop (w_i w) (block_mask (U_threads g) (w_i w) (val_threads g))
                              (nb_find_thread g ! t) (w_ind w)
                    in Inr (set_worker t (w\<lparr>w_i := w_i w + w_step w, w_ind := snd r\<rparr>)
                             (set_count t (fst r) c)))
              else Inr (set_worker t (w\<lparr>w_i := w_i w + w_step w\<rparr>) c))
         else Inr (set_worker t (w\<lparr>w_pc := Tail\<rparr>) c))
      else if w_pc w = Tail then
        (if w_i w \<le> w_end w then
           (if \<not> in_bounds (U_threads g) (w_i w) then Inl OutOfBounds
            else if \<not> in_int (w_i w + 1) then Inl SignedOverflow
            else if U_threads g ! nat (w_i w) = val_threads g
              then Inr (set_worker t (w\<lparr>w_i := w_i w + 1, w_ind := w_ind w @ [w_i w]\<rparr>)
                         (set_count t (nb_find_thread g ! t + 1) c))
              else Inr (set_worker t (w\<lparr>w_i := w_i w + 1\<rparr>) c))
         else Inr (set_worker t (w\<lparr>w_pc := Exited\<rparr>) c))
      else Inr c)"

text \<open>
  One step of \<open>watch_nb_find\<close> with threshold \<open>k\<close>: waking up and testing \<open>stop_threads\<close>,
  adding one counter to the sum, or comparing the finished sum with \<open>k\<close>.
\<close>

definition watch_nb_find :: "int \<Rightarrow> config \<Rightarrow> config" where
  "watch_nb_find k c =
     (case watcher c of
        NotStarted \<Rightarrow> c
      | Finished \<Rightarrow> c
      | Sleeping \<Rightarrow>
          (if stop_threads (glob c) then c\<lparr>watcher := Finished\<rparr>
           else c\<lparr>watcher := Summing 0 0\<rparr>)
      | Summing t nb_find \<Rightarrow>
          (if t < NB_THREADS
           then c\<lparr>watcher := Summing (t + 1) (nb_find + nb_find_thread (glob c) ! t)\<rparr>
           else if nb_find > k
             then c\<lparr>glob := (glob c)\<lparr>stop_threads := True\<rparr>, watcher := Finished\<rparr>
             else c\<lparr>watcher := Sleeping\<rparr>))"

subsection \<open>Interleavings\<close>

text \<open>
  The threads run concurrently. An execution is described by a schedule: the list of the
  threads that take the next step, in order. A step of a thread that does not exist or
  has exited changes nothing. Reads and writes of the shared variables are taken to happen
  one after the other, each read seeing the last write (the source uses plain variables
  without synchronisation). The read of \<open>stop_threads\<close> and the writes of a step happen
  together; since the counters only grow and the flag is only ever set while the threads
  run, finer interleavings give the watcher no other outcomes. The length of the sleep of
  the watcher plays no part: the schedule decides when it wakes up.
\<close>

datatype event = Worker nat | Watcher

definition exec_event ::
  "(nat \<Rightarrow> config \<Rightarrow> error + config) \<Rightarrow> int \<Rightarrow> event \<Rightarrow> config \<Rightarrow> error + config"
where
  "exec_event thread_function k e c =
     (case e of
        Worker t \<Rightarrow> (if t < NB_THREADS then thread_function t c else Inr c)
      | Watcher \<Rightarrow> Inr (watch_nb_find k c))"

fun run_sched ::
  "(nat \<Rightarrow> config \<Rightarrow> error + config) \<Rightarrow> int \<Rightarrow> event list \<Rightarrow> config \<Rightarrow> error + config"
where
  "run_sched thread_function k [] c = Inr c"
| "run_sched thread_function k (e # es) c =
     bind_e (exec_event thread_function k e c) (run_sched thread_function k es)"

text \<open>
  \<open>pthread_join\<close> on thread \<open>t\<close>: once the schedule is used up, the thread runs on alone until
  it exits. \<open>None\<close> when it never does.
\<close>

partial_function (option) join_worker ::
  "(nat \<Rightarrow> config \<Rightarrow> error + config) \<Rightarrow> nat \<Rightarrow> config \<Rightarrow> (error + config) option"
where
  "join_worker thread_function t c =
     (if w_pc (workers c ! t) = Exited then Some (Inr c)
      else if isl (thread_function t c) then Some (Inl (projl (thread_function t c)))
      else join_worker thread_function t (projr (thread_function t c)))"

declare join_worker.simps [code]

text \<open>The loop \<open>for (t ...) { pthread_join(threads[t], NULL); nb_find += nb_find_thread[t]; }\<close>.\<close>

fun join_loop ::
  "(nat \<Rightarrow> config \<Rightarrow> error + config) \<Rightarrow> nat list \<Rightarrow> config \<Rightarrow> int \<Rightarrow> (error + config \<times> int) option"
where
  "join_loop thread_function [] c nb_find = Some (Inr (c, nb_find))"
| "join_loop thread_function (t # ts) c nb_find =
     (case join_worker thread_function t c of
        None \<Rightarrow> None
      | Some (Inl e) \<Rightarrow> Some (Inl e)
      | Some (Inr c') \<Rightarrow>
          join_loop thread_function ts c' (nb_find + nb_find_thread (glob c') ! t))"

text \<open>The \<open>memcpy\<close> loop: \<open>nb_find_thread[t]\<close> entries of each thread's buffer, in thread order.\<close>

definition concat_ind :: "config \<Rightarrow> int list" where
  "concat_ind c =
     concat (map (\<lambda>t. take (nat (nb_find_thread (glob c) ! t)) (w_ind (workers c ! t)))
                 [0..<NB_THREADS])"

subsection \<open>thread\_find\<close>

definition new_worker :: "int \<Rightarrow> int \<times> int \<Rightarrow> worker" where
  "new_worker i_step se =
     \<lparr>w_i = fst se, w_end = snd se, w_step = i_step, w_ind = [], w_pc = Scanning\<rparr>"

text \<open>
  The body of \<open>thread_find\<close> after the choice of the thread function. The result is the
  returned count and index array, or an error, together with the globals the call leaves
  (of no meaning after undefined behaviour). The watcher is joined last; it exits at its
  next wake-up because \<open>stop_threads\<close> is set by then, and changes nothing any more.
\<close>

definition dispatch ::
  "(nat \<Rightarrow> config \<Rightarrow> error + config) \<Rightarrow> event list \<Rightarrow> globals \<Rightarrow> word32 list \<Rightarrow>
   int \<Rightarrow> int \<Rightarrow> int \<Rightarrow> word32 \<Rightarrow> int \<Rightarrow> ((error + int \<times> int list) \<times> globals) option"
where
  "dispatch thread_function sched g U i_start i_end i_step val k =
     (let g1 = g\<lparr>nb_find_thread := replicate NB_THREADS 0, U_threads := U, val_threads := val\<rparr>
      in case segments [0..<NB_THREADS] i_start i_end i_step of
           Inl e \<Rightarrow> Some (Inl e, g1)
         | Inr segs \<Rightarrow>
             (let c0 = \<lparr>glob = g1, workers = map (new_worker i_step) segs,
                        watcher = (if k \<ge> 0 then Sleeping else NotStarted)\<rparr>
              in case run_sched thread_function k sched c0 of
                   Inl e \<Rightarrow> Some (Inl e, g1)
                 | Inr c1 \<Rightarrow>
                     (case join_loop thread_function [0..<NB_THREADS] c1 0 of
                        None \<Rightarrow> None
                      | Some (Inl e) \<Rightarrow> Some (Inl e, glob c1)
                      | Some (Inr (c2, nb_find)) \<Rightarrow>
                          (let g2 = (glob c2)\<lparr>stop_threads := True\<rparr>;
                               ind_val = concat_ind c2
                           in if k \<ge> 0 \<and> nb_find > k
                              then Some (Inr (k, take (nat k) ind_val), g2)
                              else Some (Inr (nb_find, ind_val), g2)))))"

definition thread_find ::
  "event list \<Rightarrow> globals \<Rightarrow> word32 list \<Rightarrow> int \<Rightarrow> int \<Rightarrow> int \<Rightarrow> word32 \<Rightarrow> int \<Rightarrow> int \<Rightarrow>
   ((error + int \<times> int list) \<times> globals) option"
where
  "thread_find sched g U i_start i_end i_step val k ver =
     (if ver = 0 then dispatch scalar_thread_function sched g U i_start i_end i_step val k
      else if ver = 1 then
        (if i_step smod 8 \<noteq> 0 then Some (Inl InvalidArgument, g)
         else dispatch vect_thread_function sched g U i_start i_end i_step val k)
      else Some (Inl InvalidArgument, g))"

section \<open>The stepped index sequence of the specification\<close>

text \<open>
  The indices \<open>i_start, i_start + i_step, i_start + 2 * i_step, ...\<close> up to \<open>i_end\<close>, in
  ascending order, for a positive step.
\<close>

function stepped :: "int \<Rightarrow> int \<Rightarrow> int \<Rightarrow> int list" where
  "stepped i i_end i_step =
     (if 0 < i_step \<and> i \<le> i_end then i # stepped (i + i_step) i_end i_step else [])"
  by pat_completeness auto
termination
  by (relation "measure (\<lambda>(i, i_end, i_step). nat (i_end + 1 - i))") auto

declare stepped.simps [simp del]

section \<open>What the vectorised scan visits\<close>

text \<open>
  The indices \<open>vect_find\<close> looks at: the eight indices from \<open>i\<close> on for every \<open>i\<close> of the
  first loop, then every index from the \<open>i\<close> that ends the first loop up to \<open>i_end\<close>.
\<close>

function vect_scanned :: "int \<Rightarrow> int \<Rightarrow> int \<Rightarrow> int list" where
  "vect_scanned i i_end i_step =
     (if 0 < i_step \<and> i + 8 < i_end then [i..i + 7] @ vect_scanned (i + i_step) i_end i_step
      else [i..i_end])"
  by pat_completeness auto
termination
  by (relation "measure (\<lambda>(i, i_end, i_step). nat (i_end - i))") auto

declare vect_scanned.simps [simp del]

text \<open>
  The lane comparison agrees with \<open>==\<close> on every element of the array. It does whenever
  \<open>val\<close> is neither a NaN pattern nor one of the two zeros.
\<close>

definition lanes_exact :: "word32 list \<Rightarrow> word32 \<Rightarrow> bool" where
  "lanes_exact U val = list_all (\<lambda>x. cmp_eq_os x val = (x = val)) U"

text \<open>The indices from \<open>j\<close> on whose lane is set.\<close>

fun hits :: "int \<Rightarrow> bool list \<Rightarrow> int list" where
  "hits j [] = []"
| "hits j (b # bs) = (if b then j # hits (j + 1) bs else hits (j + 1) bs)"


section \<open>Invariants of the interleavings\<close>

text \<open>
  A state in which \<open>stop_threads\<close> is set and no thread has found anything: every counter is
  zero and every buffer empty.
\<close>

definition stopped_idle :: "config \<Rightarrow> bool" where
  "stopped_idle c =
     (stop_threads (glob c) \<and> length (workers c) = NB_THREADS \<and>
      nb_find_thread (glob c) = replicate NB_THREADS 0 \<and>
      list_all (\<lambda>w. w_ind w = [] \<and> w_pc w \<noteq> Tail) (workers c))"

text \<open>
  The invariant of the executions of the scalar threads that start with \<open>stop_threads\<close>
  clear. \<open>segment_safe\<close>: every index of a segment can be read and stepped over.
  \<open>scalar_worker_ok\<close>: a thread has scanned a prefix of its segment, its buffer holds the
  matches of that prefix and its counter their number. \<open>watcher_ok\<close>: the sum the watcher
  has built so far does not exceed the counters it has read. \<open>scalar_inv\<close>: all of these,
  a thread has exited only at the end of its segment or with the flag set, and the flag
  is set only when the counters add up to more than \<open>k\<close>. \<open>advances\<close>: counters only grow,
  the flag stays set, exited threads stay exited.
\<close>

definition segment_safe :: "word32 list \<Rightarrow> int \<Rightarrow> int \<times> int \<Rightarrow> bool" where
  "segment_safe U i_step se =
     list_all (\<lambda>x. 0 \<le> x \<and> x < int (length U) \<and> x + i_step \<le> INT_MAX)
              (stepped (fst se) (snd se) i_step)"

definition scalar_worker_ok ::
  "word32 list \<Rightarrow> word32 \<Rightarrow> int \<Rightarrow> int \<times> int \<Rightarrow> worker \<Rightarrow> int \<Rightarrow> bool"
where
  "scalar_worker_ok U val i_step se w n =
     (w_end w = snd se \<and> w_step w = i_step \<and> w_pc w \<noteq> Tail \<and> n = int (length (w_ind w)) \<and>
      (\<exists>pre. stepped (fst se) (snd se) i_step = pre @ stepped (w_i w) (snd se) i_step \<and>
             w_ind w = filter (\<lambda>x. U ! nat x = val) pre))"

definition watcher_ok :: "int \<Rightarrow> config \<Rightarrow> bool" where
  "watcher_ok k c =
     (case watcher c of
        NotStarted \<Rightarrow> True
      | Sleeping \<Rightarrow> 0 \<le> k
      | Finished \<Rightarrow> 0 \<le> k
      | Summing j acc \<Rightarrow>
          0 \<le> k \<and> j \<le> NB_THREADS \<and> acc \<le> sum_list (take j (nb_find_thread (glob c))))"

definition scalar_inv ::
  "word32 list \<Rightarrow> word32 \<Rightarrow> int \<Rightarrow> (int \<times> int) list \<Rightarrow> int \<Rightarrow> config \<Rightarrow> bool"
where
  "scalar_inv U val i_step segs k c =
     (U_threads (glob c) = U \<and> val_threads (glob c) = val \<and>
      length (workers c) = NB_THREADS \<and> length (nb_find_thread (glob c)) = NB_THREADS \<and>
      (\<forall>t<NB_THREADS.
         scalar_worker_ok U val i_step (segs ! t) (workers c ! t) (nb_find_thread (glob c) ! t) \<and>
         (w_pc (workers c ! t) = Exited \<longrightarrow>
            w_end (workers c ! t) < w_i (workers c ! t) \<or> stop_threads (glob c))) \<and>
      watcher_ok k c \<and>
      (stop_threads (glob c) \<longrightarrow> 0 \<le> k \<and> k < sum_list (nb_find_thread (glob c))))"

definition advances :: "config \<Rightarrow> config \<Rightarrow> bool" where
  "advances c c' =
     ((\<forall>u<NB_THREADS. nb_find_thread (glob c) ! u \<le> nb_find_thread (glob c') ! u) \<and>
      (stop_threads (glob c) \<longrightarrow> stop_threads (glob c')) \<and>
      (\<forall>u. w_pc (workers c ! u) = Exited \<longrightarrow> w_pc (workers c' ! u) = Exited))"

section \<open>The scalar scan\<close>

lemma in_int_nonneg: "0 \<le> x \<Longrightarrow> x \<le> INT_MAX \<Longrightarrow> in_int x"
  by (simp add: in_int_def INT_MIN_def)

lemma stepped_Nil: "\<not> (0 < i_step \<and> i \<le> i_end) \<Longrightarrow> stepped i i_end i_step = []"
  by (subst stepped.simps) simp

lemma stepped_Cons:
  "0 < i_step \<Longrightarrow> i \<le> i_end \<Longrightarrow> stepped i i_end i_step = i # stepped (i + i_step) i_end i_step"
  by (subst stepped.simps) simp

lemma find_loop_done:
  "\<not> i \<le> i_end \<Longrightarrow> find_loop U i i_end i_step val nb_find ind_val = Some (Inr (nb_find, ind_val))"
  by (subst find_loop.simps) simp

lemma find_loop_next:
  "i \<le> i_end \<Longrightarrow> in_bounds U i \<Longrightarrow> in_int (i + i_step) \<Longrightarrow>
   find_loop U i i_end i_step val nb_find ind_val =
     (if U ! nat i = val
      then find_loop U (i + i_step) i_end i_step val (nb_find + 1) (ind_val @ [i])
      else find_loop U (i + i_step) i_end i_step val nb_find ind_val)"
  by (subst find_loop.simps) simp

lemma last_increment_step:
  fixes i :: int
  assumes "0 < s" "i \<le> e"
  shows "i + s \<le> i + ((e - i) div s + 1) * s"
    and "(e - (i + s)) div s + 1 = (e - i) div s"
proof -
  have "0 \<le> (e - i) div s" using assms by (simp add: pos_imp_zdiv_nonneg_iff)
  then have "0 \<le> (e - i) div s * s" using assms by simp
  then show "i + s \<le> i + ((e - i) div s + 1) * s" by (simp add: algebra_simps)
  have "(e - i + (- 1) * s) div s = - 1 + (e - i) div s"
    using assms by (subst div_mult_self1) auto
  then show "(e - (i + s)) div s + 1 = (e - i) div s" by (simp add: algebra_simps)
qed

lemma find_loop_stepped:
  assumes "0 < i_step" "0 \<le> i" "i_end < int (length U)"
    "i \<le> i_end \<Longrightarrow> i + ((i_end - i) div i_step + 1) * i_step \<le> INT_MAX"
  shows "find_loop U i i_end i_step val nb_find ind_val =
         Some (Inr (nb_find + int (length (filter (\<lambda>x. U ! nat x = val) (stepped i i_end i_step))),
                    ind_val @ filter (\<lambda>x. U ! nat x = val) (stepped i i_end i_step)))"
  using assms
proof (induction i i_end i_step arbitrary: nb_find ind_val rule: stepped.induct)
  case (1 i i_end i_step)
  show ?case
  proof (cases "i \<le> i_end")
    case False
    then show ?thesis
      by (simp add: find_loop_done stepped_Nil)
  next
    case True
    have bnd: "in_bounds U i" using True "1.prems" by (simp add: in_bounds_def)
    have le: "i + i_step \<le> INT_MAX"
      using last_increment_step(1)[OF "1.prems"(1) True] "1.prems"(4)[OF True] by linarith
    have rng: "in_int (i + i_step)"
      using le "1.prems" by (intro in_int_nonneg) auto
    have nxt: "i + i_step \<le> i_end \<Longrightarrow>
        i + i_step + ((i_end - (i + i_step)) div i_step + 1) * i_step \<le> INT_MAX"
      using last_increment_step(2)[OF "1.prems"(1) True] "1.prems"(4)[OF True]
      by (simp add: algebra_simps)
    have IH: "find_loop U (i + i_step) i_end i_step val n' ind' =
         Some (Inr (n' + int (length (filter (\<lambda>x. U ! nat x = val) (stepped (i + i_step) i_end i_step))),
                    ind' @ filter (\<lambda>x. U ! nat x = val) (stepped (i + i_step) i_end i_step)))"
      for n' ind'
      using "1.IH"[of n' ind'] True "1.prems" nxt by simp
    show ?thesis
      using "1.prems"(1)
      by (simp add: find_loop_next[OF True bnd rng] stepped_Cons[OF "1.prems"(1) True] IH)
  qed
qed

lemma stepped_set:
  "0 < i_step \<Longrightarrow> set (stepped i i_end i_step) = {x. (\<exists>j. 0 \<le> j \<and> x = i + j * i_step) \<and> x \<le> i_end}"
proof (induction i i_end i_step rule: stepped.induct)
  case (1 i i_end i_step)
  show ?case
  proof (cases "i \<le> i_end")
    case False
    have "i \<le> i + j * i_step" if "0 \<le> j" for j using "1.prems" that by simp
    then have "{x. (\<exists>j. 0 \<le> j \<and> x = i + j * i_step) \<and> x \<le> i_end} = {}"
      using False by fastforce
    then show ?thesis
      using False by (simp add: stepped_Nil)
  next
    case True
    have IH: "set (stepped (i + i_step) i_end i_step) =
       {x. (\<exists>j. 0 \<le> j \<and> x = i + i_step + j * i_step) \<and> x \<le> i_end}"
      using "1.IH" True "1.prems" by simp
    have "{x. (\<exists>j. 0 \<le> j \<and> x = i + j * i_step) \<and> x \<le> i_end} =
          insert i {x. (\<exists>j. 0 \<le> j \<and> x = i + i_step + j * i_step) \<and> x \<le> i_end}"
      (is "?A = insert i ?B")
    proof (intro set_eqI iffI)
      fix x assume "x \<in> ?A"
      then obtain j where j: "0 \<le> j" "x = i + j * i_step" "x \<le> i_end" by auto
      show "x \<in> insert i ?B"
      proof (cases "j = 0")
        case True then show ?thesis using j by simp
      next
        case False
        then have "0 \<le> j - 1 \<and> x = i + i_step + (j - 1) * i_step"
          using j by (auto simp: algebra_simps)
        then have "\<exists>j. 0 \<le> j \<and> x = i + i_step + j * i_step" by (rule exI)
        then show ?thesis using j(3) by simp
      qed
    next
      fix x assume "x \<in> insert i ?B"
      then consider "x = i" | "x \<in> ?B" by auto
      then show "x \<in> ?A"
      proof cases
        case 1
        have "\<exists>j. 0 \<le> j \<and> i = i + j * i_step" by (rule exI[of _ 0]) simp
        then show ?thesis using True 1 by simp
      next
        case 2
        then obtain j where j: "0 \<le> j" "x = i + i_step + j * i_step" "x \<le> i_end" by auto
        then have "0 \<le> j + 1 \<and> x = i + (j + 1) * i_step" by (simp add: algebra_simps)
        then have "\<exists>j. 0 \<le> j \<and> x = i + j * i_step" by (rule exI)
        then show ?thesis using j(3) by simp
      qed
    qed
    then show ?thesis
      using IH by (simp add: stepped_Cons[OF "1.prems" True])
  qed
qed

lemma stepped_lower: "x \<in> set (stepped i i_end i_step) \<Longrightarrow> i \<le> x"
proof (induction i i_end i_step rule: stepped.induct)
  case (1 i i_end i_step)
  show ?case
  proof (cases "0 < i_step \<and> i \<le> i_end")
    case False
    then show ?thesis using "1.prems" by (simp add: stepped_Nil)
  next
    case True
    then have "x = i \<or> x \<in> set (stepped (i + i_step) i_end i_step)"
      using "1.prems" by (simp add: stepped_Cons)
    then show ?thesis using "1.IH" True by force
  qed
qed

lemma stepped_sorted: "sorted_wrt (<) (stepped i i_end i_step)"
proof (induction i i_end i_step rule: stepped.induct)
  case (1 i i_end i_step)
  show ?case
  proof (cases "0 < i_step \<and> i \<le> i_end")
    case False
    then show ?thesis by (simp add: stepped_Nil)
  next
    case True
    have "i < x" if "x \<in> set (stepped (i + i_step) i_end i_step)" for x
      using stepped_lower[OF that] True by simp
    then show ?thesis
      using True "1.IH" by (simp add: stepped_Cons)
  qed
qed

text \<open>
  Claim C4, with the range of \<open>int\<close> taken into account. For an array \<open>U\<close>, bounds with
  \<open>0 \<le> i_start \<le> i_end < length U\<close> and a positive step such that the value of \<open>i\<close> on
  leaving the loop still fits an \<open>int\<close>, \<open>find\<close> returns; its index array is strictly
  ascending and holds exactly the indices \<open>i_start + j * i_step\<close> within
  \<open>[i_start, i_end]\<close> whose element equals \<open>val\<close>; the returned count is its length.
\<close>

theorem find_scans_stepped_range:
  assumes "0 \<le> i_start" and "i_start \<le> i_end" and "i_end < int (length U)" and "0 < i_step"
    and "i_start + ((i_end - i_start) div i_step + 1) * i_step \<le> INT_MAX"
  shows "\<exists>ind. find_c U i_start i_end i_step val = Some (Inr (int (length ind), ind)) \<and>
           sorted_wrt (<) ind \<and>
           set ind = {i. (\<exists>j. 0 \<le> j \<and> i = i_start + j * i_step) \<and>
                         i_start \<le> i \<and> i \<le> i_end \<and> U ! nat i = val}"
proof -
  let ?ind = "filter (\<lambda>x. U ! nat x = val) (stepped i_start i_end i_step)"
  have run: "find_c U i_start i_end i_step val = Some (Inr (int (length ?ind), ?ind))"
    unfolding find_c_def using assms by (subst find_loop_stepped) auto
  have asc: "sorted_wrt (<) ?ind"
    by (rule sorted_wrt_filter) (rule stepped_sorted)
  have "set ?ind = {i. (\<exists>j. 0 \<le> j \<and> i = i_start + j * i_step) \<and>
                       i_start \<le> i \<and> i \<le> i_end \<and> U ! nat i = val}"
    using stepped_lower[of _ i_start i_end i_step]
    by (auto simp: stepped_set[OF assms(4)])
  with run asc show ?thesis by blast
qed

theorem find_scans_stepped_range_witness:
  "(0::int) \<le> 0 \<and> (0::int) \<le> 5 \<and> 5 < int (length [5, 2, 5, 5, 1, 5 :: word32]) \<and> (0::int) < 2 \<and>
   0 + ((5 - 0) div 2 + 1) * 2 \<le> INT_MAX \<and>
   (\<exists>ind. find_c [5, 2, 5, 5, 1, 5] 0 5 2 5 = Some (Inr (int (length ind), ind)) \<and>
      sorted_wrt (<) ind \<and>
      set ind = {i. (\<exists>j. 0 \<le> j \<and> i = 0 + j * 2) \<and> 0 \<le> i \<and> i \<le> 5 \<and>
                    [5, 2, 5, 5, 1, 5 :: word32] ! nat i = 5})"
  using find_scans_stepped_range [of 0 5 "[5, 2, 5, 5, 1, 5]" 2 5]
  by (simp add: INT_MAX_def)

text \<open>
  Claim C4 as stated fails: with valid bounds and the positive step \<open>INT_MAX\<close>, the
  increment \<open>i += i_step\<close> after the first iteration overflows.
\<close>

theorem find_step_overflow_counterexample:
  "(0::int) \<le> 1 \<and> (1::int) \<le> 1 \<and> 1 < int (length [5, 5 :: word32]) \<and> (0::int) < 2147483647 \<and>
   find_c [5, 5] 1 1 2147483647 5 = Some (Inl SignedOverflow)"
  by (simp add: find_c_def find_loop.simps in_bounds_def in_int_def INT_MAX_def INT_MIN_def)

section \<open>Memory safety of the two scans\<close>



lemma vect_loop_tail:
  "in_int (i + 8) \<Longrightarrow> \<not> i + 8 < i_end \<Longrightarrow>
   vect_loop U i i_end i_step val nb_find ind_val = find_loop U i i_end 1 val nb_find ind_val"
  by (subst vect_loop.simps) simp


lemma mask_loop_zero: "mask_loop j 0 nb_find ind_val = (nb_find, ind_val)"
  by (subst mask_loop.simps) simp

lemma vect_loop_block:
  "in_int (i + 8) \<Longrightarrow> i + 8 < i_end \<Longrightarrow> block_in_bounds U i \<Longrightarrow> in_int (i + i_step) \<Longrightarrow>
   vect_loop U i i_end i_step val nb_find ind_val =
     vect_loop U (i + i_step) i_end i_step val
       (fst (mask_loop i (block_mask U i val) nb_find ind_val))
       (snd (mask_loop i (block_mask U i val) nb_find ind_val))"
  by (subst vect_loop.simps) (simp add: mask_loop_zero)







section \<open>Rejected arguments\<close>

lemma smod_8_dvd: "(x smod 8 = 0) = (8 dvd (x::int))"
  by (auto simp: smod_int_alt_def sgn_if dvd_eq_mod_eq_0 zmod_zminus1_eq_if split: if_splits)

lemma bind_e_Inl:
  "bind_e m f = Inl e \<Longrightarrow> m = Inl e \<or> (\<exists>x. m = Inr x \<and> f x = Inl e)"
  by (cases m) (simp_all add: bind_e_def)

lemma chk_not_invalid: "chk x \<noteq> Inl InvalidArgument"
  by (simp add: chk_def)

lemma c_quot_not_invalid: "c_quot a b \<noteq> Inl InvalidArgument"
  by (simp add: c_quot_def chk_def)

lemma nb_strides_not_invalid: "nb_strides i_start i_end i_step \<noteq> Inl InvalidArgument"
  unfolding nb_strides_def
  using chk_not_invalid c_quot_not_invalid by (blast dest: bind_e_Inl)

lemma seg_bound_not_invalid: "seg_bound t i_start i_end i_step \<noteq> Inl InvalidArgument"
  unfolding seg_bound_def
  using chk_not_invalid c_quot_not_invalid nb_strides_not_invalid by (blast dest: bind_e_Inl)

lemma segment_not_invalid: "segment t i_start i_end i_step \<noteq> Inl InvalidArgument"
  unfolding segment_def
  using chk_not_invalid seg_bound_not_invalid by (blast dest!: bind_e_Inl)

lemma segments_not_invalid: "segments ts i_start i_end i_step \<noteq> Inl InvalidArgument"
proof (induction ts)
  case Nil
  then show ?case by simp
next
  case (Cons t ts)
  show ?case
  proof
    assume "segments (t # ts) i_start i_end i_step = Inl InvalidArgument"
    then have "segment t i_start i_end i_step = Inl InvalidArgument \<or>
               segments ts i_start i_end i_step = Inl InvalidArgument"
      by (auto dest!: bind_e_Inl)
    with Cons segment_not_invalid show False by blast
  qed
qed

lemma scalar_not_invalid: "scalar_thread_function t c \<noteq> Inl InvalidArgument"
  by (simp add: scalar_thread_function_def Let_def)

lemma vect_not_invalid: "vect_thread_function t c \<noteq> Inl InvalidArgument"
  by (simp add: vect_thread_function_def Let_def)

lemma run_sched_not_invalid:
  assumes "\<And>t c. thread_function t c \<noteq> Inl InvalidArgument"
  shows "run_sched thread_function k sched c \<noteq> Inl InvalidArgument"
proof (induction sched arbitrary: c)
  case Nil
  then show ?case by simp
next
  case (Cons e es)
  have "exec_event thread_function k e c \<noteq> Inl InvalidArgument"
    using assms by (cases e) (simp_all add: exec_event_def)
  with Cons show ?case by (auto dest!: bind_e_Inl)
qed

lemma join_worker_not_invalid:
  assumes "join_worker thread_function t c = Some y"
    and "\<And>t c. thread_function t c \<noteq> Inl InvalidArgument"
  shows "y \<noteq> Inl InvalidArgument"
proof -
  have "(\<forall>t c. thread_function t c \<noteq> Inl InvalidArgument) \<longrightarrow> y \<noteq> Inl InvalidArgument"
  proof (rule join_worker.raw_induct[where P = "\<lambda>thread_function t c y.
            (\<forall>t c. thread_function t c \<noteq> Inl InvalidArgument) \<longrightarrow> y \<noteq> Inl InvalidArgument",
          OF _ assms(1)], intro impI)
    fix f :: "(nat \<Rightarrow> config \<Rightarrow> error + config) \<Rightarrow> nat \<Rightarrow> config \<Rightarrow> (error + config) option"
    fix thread_function t c y
    assume IH: "\<And>thread_function t c y. f thread_function t c = Some y \<Longrightarrow>
        (\<forall>t c. thread_function t c \<noteq> Inl InvalidArgument) \<longrightarrow> y \<noteq> Inl InvalidArgument"
    assume body: "(if w_pc (workers c ! t) = Exited then Some (Inr c)
      else if isl (thread_function t c) then Some (Inl (projl (thread_function t c)))
      else f thread_function t (projr (thread_function t c))) = Some y"
    assume ok: "\<forall>t c. thread_function t c \<noteq> Inl InvalidArgument"
    show "y \<noteq> Inl InvalidArgument"
    proof (cases "w_pc (workers c ! t) = Exited")
      case True
      with body show ?thesis by auto
    next
      case False
      show ?thesis
      proof (cases "thread_function t c")
        case (Inl e)
        with ok have "e \<noteq> InvalidArgument" by metis
        with False Inl body show ?thesis by auto
      next
        case (Inr c')
        with False body have "f thread_function t c' = Some y" by simp
        from IH[OF this] ok show ?thesis by simp
      qed
    qed
  qed
  with assms(2) show ?thesis by simp
qed

lemma join_loop_not_invalid:
  assumes "\<And>t c. thread_function t c \<noteq> Inl InvalidArgument"
  shows "join_loop thread_function ts c nb_find \<noteq> Some (Inl InvalidArgument)"
proof (induction ts arbitrary: c nb_find)
  case Nil
  then show ?case by simp
next
  case (Cons t ts)
  show ?case
  proof (cases "join_worker thread_function t c")
    case None
    then show ?thesis by simp
  next
    case (Some y)
    from join_worker_not_invalid[OF Some assms] have "y \<noteq> Inl InvalidArgument" .
    with Some Cons show ?thesis by (cases y) (auto)
  qed
qed

lemma dispatch_not_invalid:
  assumes "\<And>t c. thread_function t c \<noteq> Inl InvalidArgument"
  shows "dispatch thread_function sched g U i_start i_end i_step val k \<noteq> Some (Inl InvalidArgument, g')"
proof -
  note a = segments_not_invalid[of "[0..<NB_THREADS]" i_start i_end i_step]
  note b = run_sched_not_invalid[of thread_function k sched, OF assms]
  note c = join_loop_not_invalid[of thread_function "[0..<NB_THREADS]" _ 0, OF assms]
  show ?thesis
    unfolding dispatch_def Let_def using a b c
    by (auto split: sum.splits option.splits prod.splits)
qed


lemma find_loop_not_invalid:
  assumes "find_loop U i i_end i_step val nb_find ind_val = Some y"
  shows "y \<noteq> Inl InvalidArgument"
proof (rule find_loop.raw_induct[where P = "\<lambda>U i i_end i_step val nb_find ind_val y.
          y \<noteq> Inl InvalidArgument", OF _ assms])
  fix f :: "word32 list \<Rightarrow> int \<Rightarrow> int \<Rightarrow> int \<Rightarrow> word32 \<Rightarrow> int \<Rightarrow> int list \<Rightarrow>
            (error + int \<times> int list) option"
  fix U i i_end i_step val nb_find ind_val y
  assume IH: "\<And>U i i_end i_step val nb_find ind_val y.
      f U i i_end i_step val nb_find ind_val = Some y \<Longrightarrow> y \<noteq> Inl InvalidArgument"
  assume "(if i \<le> i_end then
        (if \<not> in_bounds U i then Some (Inl OutOfBounds)
         else if \<not> in_int (i + i_step) then Some (Inl SignedOverflow)
         else if U ! nat i = val
           then f U (i + i_step) i_end i_step val (nb_find + 1) (ind_val @ [i])
           else f U (i + i_step) i_end i_step val nb_find ind_val)
      else Some (Inr (nb_find, ind_val))) = Some y"
  then show "y \<noteq> Inl InvalidArgument"
    using IH by (auto split: if_splits)
qed

lemma vect_loop_not_invalid:
  assumes "vect_loop U i i_end i_step val nb_find ind_val = Some y"
  shows "y \<noteq> Inl InvalidArgument"
proof (rule vect_loop.raw_induct[where P = "\<lambda>U i i_end i_step val nb_find ind_val y.
          y \<noteq> Inl InvalidArgument", OF _ assms])
  fix f :: "word32 list \<Rightarrow> int \<Rightarrow> int \<Rightarrow> int \<Rightarrow> word32 \<Rightarrow> int \<Rightarrow> int list \<Rightarrow>
            (error + int \<times> int list) option"
  fix U i i_end i_step val nb_find ind_val y
  assume IH: "\<And>U i i_end i_step val nb_find ind_val y.
      f U i i_end i_step val nb_find ind_val = Some y \<Longrightarrow> y \<noteq> Inl InvalidArgument"
  assume "(if \<not> in_int (i + 8) then Some (Inl SignedOverflow)
      else if i + 8 < i_end then
        (if \<not> block_in_bounds U i then Some (Inl OutOfBounds)
         else if \<not> in_int (i + i_step) then Some (Inl SignedOverflow)
         else if block_mask U i val \<noteq> 0
           then f U (i + i_step) i_end i_step val
                  (fst (mask_loop i (block_mask U i val) nb_find ind_val))
                  (snd (mask_loop i (block_mask U i val) nb_find ind_val))
           else f U (i + i_step) i_end i_step val nb_find ind_val)
      else find_loop U i i_end 1 val nb_find ind_val) = Some y"
  then show "y \<noteq> Inl InvalidArgument"
    using IH find_loop_not_invalid by (auto split: if_splits)
qed

text \<open>
  Claim C9. Whatever the schedule, \<open>thread_find\<close> returns \<open>-1\<close> exactly when \<open>ver\<close> is 1 and
  \<open>i_step\<close> is not a multiple of 8, or \<open>ver\<close> is neither 0 nor 1; it then leaves every
  global variable as it was and has run no step of any thread. \<open>vect_find\<close> returns \<open>-1\<close>
  exactly when \<open>i_step\<close> is not a multiple of 8, before any read. (The message printed for
  an unknown \<open>ver\<close> is not part of the model.)
\<close>

theorem invalid_argument_iff:
  "(thread_find sched g U i_start i_end i_step val k ver = Some (Inl InvalidArgument, g)) =
     (ver = 1 \<and> \<not> 8 dvd i_step \<or> ver \<noteq> 0 \<and> ver \<noteq> 1) \<and>
   (\<exists>g'. thread_find sched g U i_start i_end i_step val k ver = Some (Inl InvalidArgument, g')) =
     (ver = 1 \<and> \<not> 8 dvd i_step \<or> ver \<noteq> 0 \<and> ver \<noteq> 1) \<and>
   (vect_find U i_start i_end i_step val = Some (Inl InvalidArgument)) = (\<not> 8 dvd i_step)"
proof (intro conjI)
  have s: "dispatch scalar_thread_function sched g U i_start i_end i_step val k
             \<noteq> Some (Inl InvalidArgument, g')" for g'
    by (rule dispatch_not_invalid) (rule scalar_not_invalid)
  have v: "dispatch vect_thread_function sched g U i_start i_end i_step val k
             \<noteq> Some (Inl InvalidArgument, g')" for g'
    by (rule dispatch_not_invalid) (rule vect_not_invalid)
  show "(thread_find sched g U i_start i_end i_step val k ver = Some (Inl InvalidArgument, g)) =
     (ver = 1 \<and> \<not> 8 dvd i_step \<or> ver \<noteq> 0 \<and> ver \<noteq> 1)"
    using s v by (auto simp: thread_find_def smod_8_dvd)
  show "(\<exists>g'. thread_find sched g U i_start i_end i_step val k ver = Some (Inl InvalidArgument, g')) =
     (ver = 1 \<and> \<not> 8 dvd i_step \<or> ver \<noteq> 0 \<and> ver \<noteq> 1)"
    using s v by (auto simp: thread_find_def smod_8_dvd)
  have "vect_loop U i_start i_end i_step val 0 [] \<noteq> Some (Inl InvalidArgument)"
    using vect_loop_not_invalid by blast
  then show "(vect_find U i_start i_end i_step val = Some (Inl InvalidArgument)) = (\<not> 8 dvd i_step)"
    by (auto simp: vect_find_def smod_8_dvd)
qed

theorem invalid_argument_iff_witness:
  "thread_find [] initial_globals [5, 2, 5, 5, 1, 5] 0 5 3 5 (- 1) 1 =
     Some (Inl InvalidArgument, initial_globals) \<and>
   vect_find [5, 2, 5, 5, 1, 5] 0 5 3 5 = Some (Inl InvalidArgument)"
  using invalid_argument_iff [of "[]" initial_globals "[5, 2, 5, 5, 1, 5]" 0 5 3 5 "- 1" 1]
  by simp

section \<open>The vectorised scan\<close>

lemma movemask_zero: "movemask bs = 0 \<Longrightarrow> hits j bs = []"
  by (induction bs arbitrary: j) (auto split: if_splits)

lemma mask_loop_movemask:
  "mask_loop j (movemask bs) nb_find ind_val =
     (nb_find + int (length (hits j bs)), ind_val @ hits j bs)"
proof (induction bs arbitrary: j nb_find ind_val)
  case Nil
  then show ?case by (simp add: mask_loop_zero)
next
  case (Cons b bs)
  show ?case
  proof (cases "movemask (b # bs) = 0")
    case True
    then show ?thesis using movemask_zero[OF True, of j] by (simp add: mask_loop_zero)
  next
    case False
    have odd: "(movemask (b # bs) AND 1 \<noteq> 0) = b"
      by (simp add: and_one_eq)
    have half: "drop_bit 1 (movemask (b # bs)) = movemask bs"
      by (simp add: drop_bit_eq_div)
    show ?thesis
      using False by (subst mask_loop.simps) (simp only: odd half Cons.IH, simp)
  qed
qed


lemma hits_block:
  "0 \<le> i \<Longrightarrow> nat i + n \<le> length U \<Longrightarrow>
   hits i (map P (take n (drop (nat i) U))) = filter (\<lambda>x. P (U ! nat x)) [i..i + int n - 1]"
proof (induction n arbitrary: i)
  case 0
  then show ?case by simp
next
  case (Suc n)
  have lt: "nat i < length U" using Suc.prems by simp
  have nx: "nat (i + 1) = Suc (nat i)" using Suc.prems by simp
  have tk: "take (Suc n) (drop (nat i) U) = U ! nat i # take n (drop (nat (i + 1)) U)"
    using lt by (simp add: nx Cons_nth_drop_Suc[symmetric])
  have up: "[i..i + int (Suc n) - 1] = i # [i + 1..i + 1 + int n - 1]"
    by (subst upto_rec1) (simp_all add: algebra_simps)
  have IH: "hits (i + 1) (map P (take n (drop (nat (i + 1)) U))) =
            filter (\<lambda>x. P (U ! nat x)) [i + 1..i + 1 + int n - 1]"
    using Suc.prems by (intro Suc.IH) (simp_all add: nx)
  show ?case
    by (simp only: tk up list.map hits.simps IH filter.simps)
qed

lemma block_hits:
  assumes "block_in_bounds U i" and "lanes_exact U val"
  shows "hits i (map (\<lambda>x. cmp_eq_os x val) (loadu U i)) = filter (\<lambda>x. U ! nat x = val) [i..i + 7]"
proof -
  have "hits i (map (\<lambda>x. cmp_eq_os x val) (take 8 (drop (nat i) U))) =
        filter (\<lambda>x. cmp_eq_os (U ! nat x) val) [i..i + int 8 - 1]"
  proof (rule hits_block)
    show "0 \<le> i" using assms(1) by (simp add: block_in_bounds_def)
    show "nat i + 8 \<le> length U" using assms(1) unfolding block_in_bounds_def by linarith
  qed
  moreover have "filter (\<lambda>x. cmp_eq_os (U ! nat x) val) [i..i + 7] =
                 filter (\<lambda>x. U ! nat x = val) [i..i + 7]"
  proof (rule filter_cong[OF refl])
    fix x assume "x \<in> set [i..i + 7]"
    then have "nat x < length U" using assms(1) by (auto simp: block_in_bounds_def)
    then have "U ! nat x \<in> set U" by simp
    with assms(2) show "cmp_eq_os (U ! nat x) val = (U ! nat x = val)"
      by (simp add: lanes_exact_def list_all_iff)
  qed
  ultimately show ?thesis by (simp add: loadu_def add.commute)
qed

lemma stepped_one: "stepped i i_end 1 = [i..i_end]"
proof (induction i i_end "1::int" rule: stepped.induct)
  case (1 i i_end)
  show ?case
  proof (cases "i \<le> i_end")
    case False
    then show ?thesis by (simp add: stepped_Nil)
  next
    case True
    then show ?thesis using 1 by (simp add: stepped_Cons upto_rec1[of i i_end])
  qed
qed

lemma vect_scanned_tail: "\<not> (0 < i_step \<and> i + 8 < i_end) \<Longrightarrow> vect_scanned i i_end i_step = [i..i_end]"
  by (subst vect_scanned.simps) auto

lemma vect_scanned_block:
  "0 < i_step \<Longrightarrow> i + 8 < i_end \<Longrightarrow>
   vect_scanned i i_end i_step = [i..i + 7] @ vect_scanned (i + i_step) i_end i_step"
  by (subst vect_scanned.simps) simp

lemma vect_loop_scanned:
  assumes "0 < i_step" and "0 \<le> i" and "i + 8 \<le> INT_MAX" and "i_end + i_step \<le> INT_MAX"
    and "i_end < int (length U)" and "lanes_exact U val"
  shows "vect_loop U i i_end i_step val nb_find ind_val =
         Some (Inr (nb_find + int (length (filter (\<lambda>x. U ! nat x = val) (vect_scanned i i_end i_step))),
                    ind_val @ filter (\<lambda>x. U ! nat x = val) (vect_scanned i i_end i_step)))"
  using assms
proof (induction i i_end i_step arbitrary: nb_find ind_val rule: vect_scanned.induct)
  case (1 i i_end i_step)
  have r8: "in_int (i + 8)" using "1.prems" by (intro in_int_nonneg) auto
  show ?case
  proof (cases "i + 8 < i_end")
    case False
    have "find_loop U i i_end 1 val nb_find ind_val =
          Some (Inr (nb_find + int (length (filter (\<lambda>x. U ! nat x = val) (stepped i i_end 1))),
                     ind_val @ filter (\<lambda>x. U ! nat x = val) (stepped i i_end 1)))"
    proof (rule find_loop_stepped)
      assume le: "i \<le> i_end"
      have "(i_end - i) div 1 + 1 = i_end - i + 1" by simp
      then show "i + ((i_end - i) div 1 + 1) * 1 \<le> INT_MAX"
        using "1.prems" by simp
    qed (use "1.prems" in auto)
    then show ?thesis
      using False r8 by (simp add: vect_loop_tail vect_scanned_tail stepped_one)
  next
    case True
    have inb: "block_in_bounds U i" using True "1.prems" by (simp add: block_in_bounds_def)
    have rng: "in_int (i + i_step)" using True "1.prems" by (intro in_int_nonneg) auto
    have hit: "mask_loop i (block_mask U i val) nb_find ind_val =
          (nb_find + int (length (filter (\<lambda>x. U ! nat x = val) [i..i + 7])),
           ind_val @ filter (\<lambda>x. U ! nat x = val) [i..i + 7])"
      unfolding block_mask_def mask_loop_movemask block_hits[OF inb "1.prems"(6)] ..
    have IH: "vect_loop U (i + i_step) i_end i_step val n' ind' =
         Some (Inr (n' + int (length (filter (\<lambda>x. U ! nat x = val) (vect_scanned (i + i_step) i_end i_step))),
                    ind' @ filter (\<lambda>x. U ! nat x = val) (vect_scanned (i + i_step) i_end i_step)))"
      for n' ind'
      using "1.IH"[of n' ind'] True "1.prems" by simp
    show ?thesis
      using "1.prems"(1) True
      by (simp add: vect_loop_block[OF r8 True inb rng] hit IH vect_scanned_block)
  qed
qed

lemma vect_scanned_eight: "vect_scanned i i_end 8 = [i..i_end]"
proof (induction i i_end "8::int" rule: vect_scanned.induct)
  case (1 i i_end)
  show ?case
  proof (cases "i + 8 < i_end")
    case False
    then show ?thesis by (simp add: vect_scanned_tail)
  next
    case True
    have "[i..i_end] = [i..i + 7] @ [i + 7 + 1..i_end]"
      using True by (intro upto_split2) auto
    then have "[i..i_end] = [i..i + 7] @ [i + 8..i_end]"
      by (simp add: add.commute)
    then show ?thesis using True 1 by (simp add: vect_scanned_block)
  qed
qed

lemma stepped_upper: "x \<in> set (stepped i i_end i_step) \<Longrightarrow> x \<le> i_end"
proof (induction i i_end i_step rule: stepped.induct)
  case (1 i i_end i_step)
  show ?case
  proof (cases "0 < i_step \<and> i \<le> i_end")
    case False
    then show ?thesis using "1.prems" by (simp add: stepped_Nil)
  next
    case True
    then have "x = i \<or> x \<in> set (stepped (i + i_step) i_end i_step)"
      using "1.prems" by (simp add: stepped_Cons)
    then show ?thesis using "1.IH" True by force
  qed
qed

lemma stepped_subset_scanned:
  "set (stepped i i_end i_step) \<subseteq> set (vect_scanned i i_end i_step)"
proof (induction i i_end i_step rule: vect_scanned.induct)
  case (1 i i_end i_step)
  show ?case
  proof (cases "0 < i_step \<and> i + 8 < i_end")
    case False
    then show ?thesis
      using stepped_lower[of _ i i_end i_step] stepped_upper[of _ i i_end i_step]
      by (auto simp: vect_scanned_tail)
  next
    case True
    then have "stepped i i_end i_step = i # stepped (i + i_step) i_end i_step"
      by (intro stepped_Cons) auto
    then show ?thesis using True "1.IH" by (auto simp: vect_scanned_block)
  qed
qed


lemma lanes_exact_ordinary: "\<not> is_nan val \<Longrightarrow> \<not> is_zero val \<Longrightarrow> lanes_exact U val"
  by (auto simp: lanes_exact_def list_all_iff cmp_eq_os_def)

text \<open>
  Claim C5, as the code has it. Take an array and a target on which the lane comparison
  agrees with \<open>==\<close>, valid bounds, and a step that is a positive multiple of 8 with
  \<open>i_end + i_step\<close> within the range of \<open>int\<close>. Then both scans return;
  \<open>vect_find\<close> returns the matching indices of every block of eight it loads and of the
  whole remainder, so it returns every index \<open>find\<close> returns with the same step (and in
  general more); and with step 8 it returns exactly what \<open>find\<close> returns with step 1.
\<close>

theorem vect_find_covers_find:
  assumes "0 \<le> i_start" and "i_start \<le> i_end" and "i_end < int (length U)"
    and "0 < i_step" and "8 dvd i_step" and "i_end + i_step \<le> INT_MAX"
    and "lanes_exact U val"
  shows "\<exists>n ind m ind'.
           vect_find U i_start i_end i_step val = Some (Inr (n, ind)) \<and>
           find_c U i_start i_end i_step val = Some (Inr (m, ind')) \<and>
           ind = filter (\<lambda>i. U ! nat i = val) (vect_scanned i_start i_end i_step) \<and>
           set ind' \<subseteq> set ind \<and>
           (i_step = 8 \<longrightarrow> find_c U i_start i_end 1 val = Some (Inr (n, ind)))"
proof -
  let ?P = "\<lambda>i. U ! nat i = val"
  let ?ind = "filter ?P (vect_scanned i_start i_end i_step)"
  let ?ind' = "filter ?P (stepped i_start i_end i_step)"
  have "8 \<le> i_step" using assms(4,5) by (simp add: zdvd_imp_le)
  then have s8: "i_start + 8 \<le> INT_MAX" using assms(2,6) by simp
  have v: "vect_find U i_start i_end i_step val = Some (Inr (int (length ?ind), ?ind))"
    unfolding vect_find_def
    using vect_loop_scanned[OF assms(4) assms(1) s8 assms(6) assms(3) assms(7), of 0 "[]"] assms(5)
    by (simp add: smod_8_dvd)
  have "(i_end - i_start) div i_step * i_step = (i_end - i_start) - (i_end - i_start) mod i_step"
    by (simp add: minus_mod_eq_div_mult)
  moreover have "0 \<le> (i_end - i_start) mod i_step"
    using assms(4) by simp
  ultimately have "(i_end - i_start) div i_step * i_step \<le> i_end - i_start"
    by linarith
  then have li: "i_start + ((i_end - i_start) div i_step + 1) * i_step \<le> INT_MAX"
    using assms(6) by (simp add: algebra_simps)
  have f: "find_c U i_start i_end i_step val = Some (Inr (int (length ?ind'), ?ind'))"
    unfolding find_c_def using assms li by (subst find_loop_stepped) auto
  have sub: "set ?ind' \<subseteq> set ?ind"
    using stepped_subset_scanned[of i_start i_end i_step] by auto
  have one: "find_c U i_start i_end 1 val = Some (Inr (int (length ?ind), ?ind))" if "i_step = 8"
  proof -
    have "find_loop U i_start i_end 1 val 0 [] =
          Some (Inr (0 + int (length (filter ?P (stepped i_start i_end 1))),
                     [] @ filter ?P (stepped i_start i_end 1)))"
    proof (rule find_loop_stepped)
      show "i_start + ((i_end - i_start) div 1 + 1) * 1 \<le> INT_MAX"
        using assms(4,6) by simp
    qed (use assms in auto)
    then show ?thesis
      using that by (simp add: find_c_def stepped_one vect_scanned_eight)
  qed
  from v f sub one show ?thesis by blast
qed

theorem vect_find_covers_find_witness:
  "(0::int) \<le> 0 \<and> (0::int) \<le> 11 \<and> 11 < int (length [5, 2, 5, 5, 1, 5, 7, 7, 5, 0, 5, 5 :: word32]) \<and>
   (0::int) < 8 \<and> (8::int) dvd 8 \<and> 11 + 8 \<le> INT_MAX \<and>
   lanes_exact [5, 2, 5, 5, 1, 5, 7, 7, 5, 0, 5, 5] 5 \<and>
   (\<exists>n ind m ind'.
      vect_find [5, 2, 5, 5, 1, 5, 7, 7, 5, 0, 5, 5] 0 11 8 5 = Some (Inr (n, ind)) \<and>
      find_c [5, 2, 5, 5, 1, 5, 7, 7, 5, 0, 5, 5] 0 11 8 5 = Some (Inr (m, ind')) \<and>
      ind = filter (\<lambda>i. [5, 2, 5, 5, 1, 5, 7, 7, 5, 0, 5, 5 :: word32] ! nat i = 5) (vect_scanned 0 11 8) \<and>
      set ind' \<subseteq> set ind \<and>
      find_c [5, 2, 5, 5, 1, 5, 7, 7, 5, 0, 5, 5] 0 11 1 5 = Some (Inr (n, ind)))"
proof -
  have nz: "\<not> is_nan 5" "\<not> is_zero 5"
    by (simp_all add: is_nan_def is_zero_def)
  have ex: "lanes_exact [5, 2, 5, 5, 1, 5, 7, 7, 5, 0, 5, 5] 5"
    by (rule lanes_exact_ordinary[OF nz])
  show ?thesis
    using vect_find_covers_find [of 0 11 "[5, 2, 5, 5, 1, 5, 7, 7, 5, 0, 5, 5]" 8 5] ex
    by (simp add: INT_MAX_def)
qed

text \<open>
  Claim C5 as stated fails: with step 8 on a two-element array, \<open>find\<close> visits index 0
  only, while \<open>vect_find\<close> scans the remainder \<open>[0, 1]\<close> with step 1.
\<close>

theorem vect_find_off_stride_counterexample:
  "(0::int) < 8 \<and> (8::int) dvd 8 \<and> (0::int) \<le> 0 \<and> (0::int) \<le> 1 \<and> 1 < int (length [5, 5 :: word32]) \<and>
   find_c [5, 5] 0 1 8 5 = Some (Inr (1, [0])) \<and>
   vect_find [5, 5] 0 1 8 5 = Some (Inr (2, [0, 1])) \<and>
   set [0 :: int] \<noteq> set [0, 1]"
  by (simp add: find_c_def vect_find_def vect_loop.simps find_loop.simps in_bounds_def in_int_def
        INT_MAX_def INT_MIN_def)

section \<open>The segments of the threads\<close>

lemma bind_e_Inr: "bind_e (Inr x) f = f x"
  by (simp add: bind_e_def)

lemma chk_ok: "0 \<le> x \<Longrightarrow> x \<le> INT_MAX \<Longrightarrow> chk x = Inr x"
  by (simp add: chk_def in_int_nonneg)

lemma sdiv_nonneg: "0 \<le> a \<Longrightarrow> 0 < b \<Longrightarrow> a sdiv b = a div (b::int)"
  by (simp add: signed_divide_int_def sgn_if)

lemma div_bounds:
  fixes a b :: int
  assumes "0 < b"
  shows "a div b * b \<le> a" and "a < (a div b + 1) * b"
proof -
  have eq: "a div b * b = a - a mod b" by (simp add: minus_mod_eq_div_mult)
  have md: "0 \<le> a mod b" "a mod b < b" using assms by simp_all
  show "a div b * b \<le> a" using eq md by linarith
  have "(a div b + 1) * b = a div b * b + b" by (simp add: algebra_simps)
  then show "a < (a div b + 1) * b" using eq md by linarith
qed

lemma le_mult_pos:
  fixes x b :: int
  assumes "0 \<le> x" "0 < b"
  shows "x \<le> x * b"
proof -
  have "x * 1 \<le> x * b" using assms by (intro mult_left_mono) auto
  then show ?thesis by simp
qed

lemma c_quot_ok: "0 \<le> a \<Longrightarrow> a \<le> INT_MAX \<Longrightarrow> 0 < b \<Longrightarrow> c_quot a b = Inr (a div b)"
proof -
  assume a: "0 \<le> a" "a \<le> INT_MAX" "0 < b"
  have q: "0 \<le> a div b" using a by (simp add: pos_imp_zdiv_nonneg_iff)
  have "a div b \<le> a div b * b" using q a(3) by (rule le_mult_pos)
  also have "\<dots> \<le> a" using a(3) by (rule div_bounds)
  finally show ?thesis using a q by (simp add: c_quot_def sdiv_nonneg chk_ok)
qed

lemma nb_strides_ok:
  assumes "0 \<le> i_start" "i_start \<le> i_end" "0 < i_step"
    and "i_start + ((i_end - i_start) div i_step + 1) * i_step \<le> INT_MAX"
  shows "nb_strides i_start i_end i_step = Inr ((i_end - i_start) div i_step + 1)"
proof -
  let ?q = "(i_end - i_start) div i_step"
  have q0: "0 \<le> ?q" using assms by (simp add: pos_imp_zdiv_nonneg_iff)
  have "?q + 1 \<le> (?q + 1) * i_step" using q0 assms(3) by (intro le_mult_pos) auto
  then have m: "?q + 1 \<le> INT_MAX" using assms(1,4) by linarith
  have "i_end - i_start < (?q + 1) * i_step"
    using assms(3) by (rule div_bounds)
  then have d: "i_end - i_start \<le> INT_MAX" using assms(1,4) by linarith
  show ?thesis
    unfolding nb_strides_def using assms d m q0
    by (simp add: chk_ok bind_e_Inr c_quot_ok)
qed

lemma seg_bound_ok:
  assumes "0 \<le> i_start" "i_start \<le> i_end" "0 < i_step"
    and "i_start + ((i_end - i_start) div i_step + 1) * i_step \<le> INT_MAX"
    and "8 * ((i_end - i_start) div i_step + 1) \<le> INT_MAX"
    and "0 \<le> t" "t \<le> 8"
  shows "seg_bound t i_start i_end i_step =
         Inr (t * ((i_end - i_start) div i_step + 1) div 8 * i_step + i_start)"
proof -
  let ?m = "(i_end - i_start) div i_step + 1"
  have m1: "1 \<le> ?m" using assms(2,3) by (simp add: pos_imp_zdiv_nonneg_iff)
  have p0: "0 \<le> t * ?m" using assms(6) m1 by simp
  have "t * ?m \<le> 8 * ?m" using assms(7) m1 by (intro mult_right_mono) auto
  then have p1: "t * ?m \<le> INT_MAX" using assms(5) by linarith
  have b0: "0 \<le> t * ?m div 8" using p0 by (simp add: pos_imp_zdiv_nonneg_iff)
  have "t * ?m div 8 \<le> 8 * ?m div 8" using \<open>t * ?m \<le> 8 * ?m\<close> by (intro zdiv_mono1) auto
  then have b1: "t * ?m div 8 \<le> ?m" by simp
  have s0: "0 \<le> t * ?m div 8 * i_step" using b0 assms(3) by simp
  have "t * ?m div 8 * i_step \<le> ?m * i_step" using b1 assms(3) by (intro mult_right_mono) auto
  then have s1: "t * ?m div 8 * i_step + i_start \<le> INT_MAX" using assms(4) by linarith
  then have s2: "t * ?m div 8 * i_step \<le> INT_MAX" using assms(1) by linarith
  show ?thesis
    unfolding seg_bound_def
    using nb_strides_ok[OF assms(1-4)] p0 p1 b0 s0 s1 s2 assms(1)
    by (simp add: bind_e_Inr chk_ok c_quot_ok NB_THREADS_def)
qed


lemma chk_in_int: "in_int x \<Longrightarrow> chk x = Inr x"
  by (simp add: chk_def)

lemma segment_ok:
  assumes "0 \<le> i_start" "i_start \<le> i_end" "0 < i_step"
    and "i_start + ((i_end - i_start) div i_step + 1) * i_step \<le> INT_MAX"
    and "8 * ((i_end - i_start) div i_step + 1) \<le> INT_MAX"
    and "t < 8"
  shows "segment t i_start i_end i_step =
         Inr (int t * ((i_end - i_start) div i_step + 1) div 8 * i_step + i_start,
              (int t + 1) * ((i_end - i_start) div i_step + 1) div 8 * i_step + i_start - 1)"
proof -
  let ?m = "(i_end - i_start) div i_step + 1"
  let ?e1 = "(int t + 1) * ?m div 8 * i_step + i_start"
  have a: "seg_bound (int t) i_start i_end i_step = Inr (int t * ?m div 8 * i_step + i_start)"
    using assms(6) by (intro seg_bound_ok[OF assms(1-5)]) auto
  have b: "seg_bound (int t + 1) i_start i_end i_step = Inr ?e1"
    using assms(6) by (intro seg_bound_ok[OF assms(1-5)]) auto
  have m1: "1 \<le> ?m" using assms(2,3) by (simp add: pos_imp_zdiv_nonneg_iff)
  have "0 \<le> (int t + 1) * ?m div 8" using m1 by (simp add: pos_imp_zdiv_nonneg_iff)
  then have e0: "0 \<le> ?e1" using assms(1,3) by simp
  have "(int t + 1) * ?m \<le> 8 * ?m" using assms(6) m1 by (intro mult_right_mono) auto
  then have "(int t + 1) * ?m div 8 \<le> 8 * ?m div 8" by (intro zdiv_mono1) auto
  then have "(int t + 1) * ?m div 8 \<le> ?m" by simp
  then have "(int t + 1) * ?m div 8 * i_step \<le> ?m * i_step"
    using assms(3) by (intro mult_right_mono) auto
  then have "?e1 \<le> INT_MAX" using assms(4) by linarith
  with e0 have "in_int (?e1 - 1)" by (simp add: in_int_def INT_MIN_def)
  then show ?thesis
    unfolding segment_def by (simp add: a b bind_e_Inr chk_in_int)
qed

lemma segments_ok:
  assumes "0 \<le> i_start" "i_start \<le> i_end" "0 < i_step"
    and "i_start + ((i_end - i_start) div i_step + 1) * i_step \<le> INT_MAX"
    and "8 * ((i_end - i_start) div i_step + 1) \<le> INT_MAX"
    and "\<And>t. t \<in> set ts \<Longrightarrow> t < 8"
  shows "segments ts i_start i_end i_step =
         Inr (map (\<lambda>t. (int t * ((i_end - i_start) div i_step + 1) div 8 * i_step + i_start,
                         (int t + 1) * ((i_end - i_start) div i_step + 1) div 8 * i_step + i_start - 1))
                  ts)"
  using assms(6)
proof (induction ts)
  case Nil
  then show ?case by simp
next
  case (Cons t ts)
  have "t < 8" using Cons.prems by simp
  from segment_ok[OF assms(1-5) this] Cons show ?case
    by (simp add: bind_e_Inr)
qed

lemma stepped_block:
  assumes "0 < i_step"
  shows "set (stepped (i_start + a * i_step) (i_start + c * i_step - 1) i_step) =
         (\<lambda>j. i_start + j * i_step) ` {a..<c}"
proof (intro set_eqI iffI)
  fix x assume "x \<in> set (stepped (i_start + a * i_step) (i_start + c * i_step - 1) i_step)"
  then obtain j where j: "0 \<le> j" "x = i_start + a * i_step + j * i_step"
      "x \<le> i_start + c * i_step - 1"
    by (auto simp: stepped_set[OF assms])
  then have "(a + j) * i_step < c * i_step" by (simp add: algebra_simps)
  then have "a + j < c" using assms by (simp add: mult_less_cancel_right)
  moreover have "x = i_start + (a + j) * i_step" using j(2) by (simp add: algebra_simps)
  ultimately show "x \<in> (\<lambda>j. i_start + j * i_step) ` {a..<c}" using j(1) by auto
next
  fix x assume "x \<in> (\<lambda>j. i_start + j * i_step) ` {a..<c}"
  then obtain j where j: "a \<le> j" "j < c" "x = i_start + j * i_step" by auto
  have "(j + 1) * i_step \<le> c * i_step" using j(2) assms by (intro mult_right_mono) auto
  then have "j * i_step + i_step \<le> c * i_step" by (simp add: algebra_simps)
  then have up: "x \<le> i_start + c * i_step - 1" using j(3) assms by linarith
  have "0 \<le> j - a \<and> x = i_start + a * i_step + (j - a) * i_step"
    using j by (simp add: algebra_simps)
  then have "\<exists>k. 0 \<le> k \<and> x = i_start + a * i_step + k * i_step" by (rule exI)
  with up show "x \<in> set (stepped (i_start + a * i_step) (i_start + c * i_step - 1) i_step)"
    by (simp add: stepped_set[OF assms])
qed

lemma stepped_full:
  assumes "0 < i_step"
  shows "set (stepped i_start i_end i_step) =
         (\<lambda>j. i_start + j * i_step) ` {0..<(i_end - i_start) div i_step + 1}"
proof (intro set_eqI iffI)
  fix x assume "x \<in> set (stepped i_start i_end i_step)"
  then obtain j where j: "0 \<le> j" "x = i_start + j * i_step" "x \<le> i_end"
    by (auto simp: stepped_set[OF assms])
  have "j < (i_end - i_start) div i_step + 1"
  proof (rule ccontr)
    assume "\<not> j < (i_end - i_start) div i_step + 1"
    then have "((i_end - i_start) div i_step + 1) * i_step \<le> j * i_step"
      using assms by (intro mult_right_mono) auto
    moreover have "i_end - i_start < ((i_end - i_start) div i_step + 1) * i_step"
      using assms by (rule div_bounds)
    ultimately show False using j by linarith
  qed
  with j show "x \<in> (\<lambda>j. i_start + j * i_step) ` {0..<(i_end - i_start) div i_step + 1}" by auto
next
  fix x assume "x \<in> (\<lambda>j. i_start + j * i_step) ` {0..<(i_end - i_start) div i_step + 1}"
  then obtain j where j: "0 \<le> j" "j \<le> (i_end - i_start) div i_step" "x = i_start + j * i_step"
    by auto
  have "j * i_step \<le> (i_end - i_start) div i_step * i_step"
    using j(2) assms by (intro mult_right_mono) auto
  also have "\<dots> \<le> i_end - i_start" using assms by (rule div_bounds)
  finally have "x \<le> i_end" using j(3) by linarith
  moreover have "\<exists>k. 0 \<le> k \<and> x = i_start + k * i_step" using j by blast
  ultimately show "x \<in> set (stepped i_start i_end i_step)"
    by (simp add: stepped_set[OF assms])
qed

lemma intervals_union:
  fixes B :: "nat \<Rightarrow> int"
  assumes "\<And>t. B t \<le> B (Suc t)"
  shows "(\<Union>t<n. {B t..<B (Suc t)}) = {B 0..<B n}"
proof (induction n)
  case 0
  then show ?case by simp
next
  case (Suc n)
  have "B 0 \<le> B n" by (induction n) (auto intro: order_trans assms)
  then have "{B 0..<B n} \<union> {B n..<B (Suc n)} = {B 0..<B (Suc n)}"
    using assms[of n] by (intro ivl_disj_un) auto
  with Suc show ?case by (simp add: lessThan_Suc Un_commute)
qed

lemma intervals_disjoint:
  fixes B :: "nat \<Rightarrow> int"
  assumes "\<And>t. B t \<le> B (Suc t)" and "s \<noteq> t"
  shows "{B s..<B (Suc s)} \<inter> {B t..<B (Suc t)} = {}"
proof -
  have mono: "B u \<le> B v" if "u \<le> v" for u v
    using that by (induction v) (auto simp: le_Suc_eq intro: order_trans assms(1))
  consider "Suc s \<le> t" | "Suc t \<le> s" using assms(2) by linarith
  then show ?thesis
  proof cases
    case 1
    from mono[OF this] show ?thesis by auto
  next
    case 2
    from mono[OF this] show ?thesis by auto
  qed
qed


lemma join_worker_exited:
  "w_pc (workers c ! t) = Exited \<Longrightarrow> join_worker thread_function t c = Some (Inr c)"
  by (subst join_worker.simps) simp

lemma join_worker_step:
  "w_pc (workers c ! t) \<noteq> Exited \<Longrightarrow> thread_function t c = Inr c' \<Longrightarrow>
   join_worker thread_function t c = join_worker thread_function t c'"
  by (subst join_worker.simps) simp

lemma set_worker_nth: "t < length (workers c) \<Longrightarrow> workers (set_worker t w c) ! t = w"
  by (simp add: set_worker_def)

lemma set_worker_twice: "set_worker t w (set_worker t w' c) = set_worker t w c"
  by (simp add: set_worker_def)

lemma scalar_idle:
  assumes "t < length (workers c)" and "w_pc (workers c ! t) = Scanning"
    and "w_end (workers c ! t) < w_i (workers c ! t)"
  shows "join_worker scalar_thread_function t c =
         Some (Inr (set_worker t ((workers c ! t)\<lparr>w_pc := Exited\<rparr>) c))"
proof -
  let ?c' = "set_worker t ((workers c ! t)\<lparr>w_pc := Exited\<rparr>) c"
  have st: "scalar_thread_function t c = Inr ?c'"
    using assms(2,3) by (simp add: scalar_thread_function_def Let_def)
  have "join_worker scalar_thread_function t c = join_worker scalar_thread_function t ?c'"
    using assms(2) st by (intro join_worker_step) auto
  also have "\<dots> = Some (Inr ?c')"
    using assms(1) by (intro join_worker_exited) (simp add: set_worker_nth)
  finally show ?thesis .
qed

lemma vect_idle:
  assumes "t < length (workers c)" and "w_pc (workers c ! t) = Scanning"
    and "w_end (workers c ! t) < w_i (workers c ! t)" and "in_int (w_i (workers c ! t) + 8)"
  shows "join_worker vect_thread_function t c =
         Some (Inr (set_worker t ((workers c ! t)\<lparr>w_pc := Exited\<rparr>) c))"
proof -
  let ?w = "workers c ! t"
  let ?c1 = "set_worker t (?w\<lparr>w_pc := Tail\<rparr>) c"
  let ?c2 = "set_worker t (?w\<lparr>w_pc := Exited\<rparr>) c"
  have s1: "vect_thread_function t c = Inr ?c1"
    using assms(2,3,4) by (simp add: vect_thread_function_def Let_def)
  have w1: "workers ?c1 ! t = ?w\<lparr>w_pc := Tail\<rparr>"
    using assms(1) by (simp add: set_worker_nth)
  have s2: "vect_thread_function t ?c1 = Inr ?c2"
    using assms(3) by (simp add: vect_thread_function_def Let_def w1 set_worker_twice)
  have "join_worker vect_thread_function t c = join_worker vect_thread_function t ?c1"
    using assms(2) s1 by (intro join_worker_step) auto
  also have "\<dots> = join_worker vect_thread_function t ?c2"
    using s2 by (intro join_worker_step) (simp_all add: w1)
  also have "\<dots> = Some (Inr ?c2)"
    using assms(1) by (intro join_worker_exited) (simp add: set_worker_nth)
  finally show ?thesis .
qed

lemma upt_8: "[0..<8] = [0, 1, 2, 3, 4, 5, 6, 7 :: nat]"
  by (simp add: upt_rec)

lemma empty_count:
  fixes m :: int
  assumes "1 \<le> m" "m < 8"
  shows "int (length (filter (\<lambda>t. (int t + 1) * m div 8 \<le> int t * m div 8) [0..<8])) = 8 - m"
proof -
  from assms consider "m = 1" | "m = 2" | "m = 3" | "m = 4" | "m = 5" | "m = 6" | "m = 7"
    by linarith
  then show ?thesis
    by cases (simp_all add: upt_8)
qed


text \<open>
  Claim C8, within the range of \<open>int\<close>. Let \<open>0 \<le> i_start \<le> i_end\<close> and \<open>0 < i_step\<close>,
  with \<open>M = (i_end - i_start) / i_step + 1\<close> strides, and let neither \<open>8 * M\<close> nor
  \<open>i_start + M * i_step\<close> exceed \<open>INT_MAX\<close>. Then the bounds of the \<open>NB_THREADS = 8\<close> threads
  are computed without overflow; the stepped index sets of the eight segments are
  pairwise disjoint and their union is the stepped index set of \<open>[i_start, i_end]\<close>; when
  \<open>M < 8\<close>, exactly \<open>8 - M\<close> segments are empty (start above end); and a thread given an
  empty segment, run from any state of the other threads, exits without reading the
  array, leaving its counter, its buffer and everything else as they were (for the vector
  thread function, with a step that is a multiple of 8).
\<close>

theorem segments_partition:
  assumes "0 \<le> i_start" and "i_start \<le> i_end" and "0 < i_step"
    and "i_start + ((i_end - i_start) div i_step + 1) * i_step \<le> INT_MAX"
    and "8 * ((i_end - i_start) div i_step + 1) \<le> INT_MAX"
  shows "\<exists>segs.
     segments [0..<NB_THREADS] i_start i_end i_step = Inr segs \<and> length segs = NB_THREADS \<and>
     (\<forall>s<NB_THREADS. \<forall>t<NB_THREADS. s \<noteq> t \<longrightarrow>
        set (stepped (fst (segs ! s)) (snd (segs ! s)) i_step) \<inter>
        set (stepped (fst (segs ! t)) (snd (segs ! t)) i_step) = {}) \<and>
     (\<Union>t<NB_THREADS. set (stepped (fst (segs ! t)) (snd (segs ! t)) i_step)) =
        set (stepped i_start i_end i_step) \<and>
     ((i_end - i_start) div i_step + 1 < int NB_THREADS \<longrightarrow>
        int (length (filter (\<lambda>se. snd se < fst se) segs)) =
        int NB_THREADS - ((i_end - i_start) div i_step + 1)) \<and>
     (\<forall>t<NB_THREADS. \<forall>c.
        snd (segs ! t) < fst (segs ! t) \<longrightarrow> t < length (workers c) \<longrightarrow>
        workers c ! t = new_worker i_step (segs ! t) \<longrightarrow>
          join_worker scalar_thread_function t c =
            Some (Inr (set_worker t ((workers c ! t)\<lparr>w_pc := Exited\<rparr>) c)) \<and>
          (8 dvd i_step \<longrightarrow>
           join_worker vect_thread_function t c =
             Some (Inr (set_worker t ((workers c ! t)\<lparr>w_pc := Exited\<rparr>) c))))"
proof -
  define m where "m = (i_end - i_start) div i_step + 1"
  define B where "B t = int t * m div 8" for t :: nat
  define f where "f j = i_start + j * i_step" for j :: int
  define g where "g t = (B t * i_step + i_start, B (Suc t) * i_step + i_start - 1)" for t :: nat
  define segs where "segs = map g [0..<8]"
  have m1: "1 \<le> m" using assms(2,3) by (simp add: m_def pos_imp_zdiv_nonneg_iff)
  have B0: "B 0 = 0" and B8: "B 8 = m" by (simp_all add: B_def)
  have Bmono: "B t \<le> B (Suc t)" for t
    unfolding B_def using m1 by (intro zdiv_mono1 mult_right_mono) auto
  have Bnonneg: "0 \<le> B t" for t
    unfolding B_def using m1 by (simp add: pos_imp_zdiv_nonneg_iff)
  have gform: "g t = (int t * m div 8 * i_step + i_start, (int t + 1) * m div 8 * i_step + i_start - 1)"
    for t by (simp add: g_def B_def add.commute)
  have plan: "segments [0..<NB_THREADS] i_start i_end i_step = Inr segs"
    unfolding segs_def NB_THREADS_def
    using segments_ok[OF assms, of "[0..<8]"] by (simp add: gform[abs_def] m_def)
  have len: "length segs = NB_THREADS" by (simp add: segs_def NB_THREADS_def)
  have nth: "segs ! t = g t" if "t < 8" for t
    using that by (simp add: segs_def del: upt_Suc)
  have blk: "set (stepped (fst (g t)) (snd (g t)) i_step) = f ` {B t..<B (Suc t)}" for t
    using stepped_block[OF assms(3), of i_start "B t" "B (Suc t)"]
    by (simp add: g_def f_def[abs_def] add.commute)
  have injf: "inj f"
    using assms(3) by (auto simp: inj_on_def f_def)
  have disj: "set (stepped (fst (segs ! s)) (snd (segs ! s)) i_step) \<inter>
              set (stepped (fst (segs ! t)) (snd (segs ! t)) i_step) = {}"
    if "s < 8" "t < 8" "s \<noteq> t" for s t
  proof -
    have "f ` {B s..<B (Suc s)} \<inter> f ` {B t..<B (Suc t)} = f ` ({B s..<B (Suc s)} \<inter> {B t..<B (Suc t)})"
      using injf by (rule image_Int[symmetric])
    also have "\<dots> = {}"
      using intervals_disjoint[of B s t, OF Bmono that(3)] by simp
    finally show ?thesis using that by (simp add: nth blk)
  qed
  have "(\<Union>t<8. set (stepped (fst (segs ! t)) (snd (segs ! t)) i_step)) =
        (\<Union>t<8. f ` {B t..<B (Suc t)})"
    by (intro SUP_cong refl) (simp add: nth blk)
  also have "\<dots> = f ` (\<Union>t<8. {B t..<B (Suc t)})" by (simp add: image_UN)
  also have "\<dots> = f ` {0..<m}"
    using intervals_union[of B 8, OF Bmono] by (simp add: B0 B8)
  also have "\<dots> = set (stepped i_start i_end i_step)"
    using stepped_full[OF assms(3), of i_start i_end] by (simp add: f_def[abs_def] m_def)
  finally have cover: "(\<Union>t<NB_THREADS. set (stepped (fst (segs ! t)) (snd (segs ! t)) i_step)) =
        set (stepped i_start i_end i_step)"
    by (simp add: NB_THREADS_def)
  have empty_iff: "(snd (g t) < fst (g t)) = ((int t + 1) * m div 8 \<le> int t * m div 8)" for t
  proof -
    have "(B (Suc t) * i_step \<le> B t * i_step) = (B (Suc t) \<le> B t)"
      using assms(3) by (simp add: mult_le_cancel_right)
    then show ?thesis by (auto simp: g_def B_def add.commute)
  qed
  have count: "int (length (filter (\<lambda>se. snd se < fst se) segs)) = int NB_THREADS - m" if "m < int NB_THREADS"
  proof -
    have "filter (\<lambda>se. snd se < fst se) segs =
          map g (filter (\<lambda>t. (int t + 1) * m div 8 \<le> int t * m div 8) [0..<8])"
      by (simp add: segs_def filter_map o_def empty_iff)
    then show ?thesis
      using empty_count[OF m1, of ] that by (simp add: NB_THREADS_def)
  qed
  have idle: "join_worker scalar_thread_function t c =
            Some (Inr (set_worker t ((workers c ! t)\<lparr>w_pc := Exited\<rparr>) c)) \<and>
          (8 dvd i_step \<longrightarrow>
           join_worker vect_thread_function t c =
             Some (Inr (set_worker t ((workers c ! t)\<lparr>w_pc := Exited\<rparr>) c)))"
    if t: "t < 8" and emp: "snd (segs ! t) < fst (segs ! t)" and tl: "t < length (workers c)"
      and w: "workers c ! t = new_worker i_step (segs ! t)" for t c
  proof
    have pc: "w_pc (workers c ! t) = Scanning" and e: "w_end (workers c ! t) < w_i (workers c ! t)"
      using emp by (simp_all add: w new_worker_def)
    show "join_worker scalar_thread_function t c =
            Some (Inr (set_worker t ((workers c ! t)\<lparr>w_pc := Exited\<rparr>) c))"
      by (rule scalar_idle[OF tl pc e])
    show "8 dvd i_step \<longrightarrow> join_worker vect_thread_function t c =
             Some (Inr (set_worker t ((workers c ! t)\<lparr>w_pc := Exited\<rparr>) c))"
    proof
      assume "8 dvd i_step"
      then have s8: "8 \<le> i_step" using assms(3) by (simp add: zdvd_imp_le)
      have Bt: "B t \<le> m - 1"
      proof -
        have "int t * m \<le> 7 * m" using t m1 by (intro mult_right_mono) auto
        also have "\<dots> < 8 * m" using m1 by simp
        finally have lt: "int t * m < 8 * m" .
        have "int t * m div 8 * 8 \<le> int t * m" by (rule div_bounds) simp
        with lt have "int t * m div 8 < m" by linarith
        then show ?thesis by (simp add: B_def)
      qed
      have "B t * i_step \<le> (m - 1) * i_step" using Bt assms(3) by (intro mult_right_mono) auto
      then have "B t * i_step + i_start + 8 \<le> m * i_step + i_start"
        using s8 by (simp add: algebra_simps)
      then have "w_i (workers c ! t) + 8 \<le> INT_MAX"
        using assms(4) t by (simp add: w new_worker_def nth g_def m_def algebra_simps)
      moreover have "0 \<le> w_i (workers c ! t)"
        using Bnonneg[of t] assms(1,3) t by (simp add: w new_worker_def nth g_def)
      ultimately have "in_int (w_i (workers c ! t) + 8)" by (intro in_int_nonneg) auto
      then show "join_worker vect_thread_function t c =
             Some (Inr (set_worker t ((workers c ! t)\<lparr>w_pc := Exited\<rparr>) c))"
        by (rule vect_idle[OF tl pc e])
    qed
  qed
  show ?thesis
  proof (intro exI[of _ segs] conjI allI impI)
    show "segments [0..<NB_THREADS] i_start i_end i_step = Inr segs" by (rule plan)
    show "length segs = NB_THREADS" by (rule len)
    show "(\<Union>t<NB_THREADS. set (stepped (fst (segs ! t)) (snd (segs ! t)) i_step)) =
        set (stepped i_start i_end i_step)" by (rule cover)
  next
    fix s t assume "s < NB_THREADS" "t < NB_THREADS" "s \<noteq> t"
    then show "set (stepped (fst (segs ! s)) (snd (segs ! s)) i_step) \<inter>
        set (stepped (fst (segs ! t)) (snd (segs ! t)) i_step) = {}"
      using disj[of s t] by (simp add: NB_THREADS_def)
  next
    assume "(i_end - i_start) div i_step + 1 < int NB_THREADS"
    then show "int (length (filter (\<lambda>se. snd se < fst se) segs)) =
        int NB_THREADS - ((i_end - i_start) div i_step + 1)"
      using count by (simp add: m_def)
  next
    fix t and c :: config
    assume "t < NB_THREADS" "snd (segs ! t) < fst (segs ! t)" "t < length (workers c)"
      "workers c ! t = new_worker i_step (segs ! t)"
    then have *: "join_worker scalar_thread_function t c =
            Some (Inr (set_worker t ((workers c ! t)\<lparr>w_pc := Exited\<rparr>) c)) \<and>
          (8 dvd i_step \<longrightarrow>
           join_worker vect_thread_function t c =
             Some (Inr (set_worker t ((workers c ! t)\<lparr>w_pc := Exited\<rparr>) c)))"
      using idle[of t c] by (simp add: NB_THREADS_def)
    from * show "join_worker scalar_thread_function t c =
            Some (Inr (set_worker t ((workers c ! t)\<lparr>w_pc := Exited\<rparr>) c))" by simp
    assume "8 dvd i_step"
    with * show "join_worker vect_thread_function t c =
             Some (Inr (set_worker t ((workers c ! t)\<lparr>w_pc := Exited\<rparr>) c))" by simp
  qed
qed


theorem segments_partition_witness:
  "(0::int) \<le> 0 \<and> (0::int) \<le> 15 \<and> (0::int) < 8 \<and>
   0 + ((15 - 0) div 8 + 1) * 8 \<le> INT_MAX \<and> 8 * ((15 - 0) div 8 + 1) \<le> INT_MAX \<and>
   (\<exists>segs.
     segments [0..<NB_THREADS] 0 15 8 = Inr segs \<and> length segs = NB_THREADS \<and>
     (\<forall>s<NB_THREADS. \<forall>t<NB_THREADS. s \<noteq> t \<longrightarrow>
        set (stepped (fst (segs ! s)) (snd (segs ! s)) 8) \<inter>
        set (stepped (fst (segs ! t)) (snd (segs ! t)) 8) = {}) \<and>
     (\<Union>t<NB_THREADS. set (stepped (fst (segs ! t)) (snd (segs ! t)) 8)) =
        set (stepped 0 15 8) \<and>
     ((15 - 0) div 8 + 1 < int NB_THREADS \<longrightarrow>
        int (length (filter (\<lambda>se. snd se < fst se) segs)) =
        int NB_THREADS - ((15 - 0) div 8 + 1)) \<and>
     (\<forall>t<NB_THREADS. \<forall>c.
        snd (segs ! t) < fst (segs ! t) \<longrightarrow> t < length (workers c) \<longrightarrow>
        workers c ! t = new_worker 8 (segs ! t) \<longrightarrow>
          join_worker scalar_thread_function t c =
            Some (Inr (set_worker t ((workers c ! t)\<lparr>w_pc := Exited\<rparr>) c)) \<and>
          (8 dvd (8::int) \<longrightarrow>
           join_worker vect_thread_function t c =
             Some (Inr (set_worker t ((workers c ! t)\<lparr>w_pc := Exited\<rparr>) c)))))"
  using segments_partition [of 0 15 8]
  by (simp add: INT_MAX_def)

text \<open>
  Claim C8 as stated fails for large ranges: over \<open>[0, 999999999]\<close> with step 1 (the
  default array of \<open>main\<close>), the product \<open>(t + 1) * M\<close> overflows for the third thread.
\<close>

theorem segments_overflow_counterexample:
  "(0::int) \<le> 0 \<and> (0::int) \<le> 999999999 \<and> (0::int) < 1 \<and>
   segments [0..<NB_THREADS] 0 999999999 1 = Inl SignedOverflow"
  by (simp add: NB_THREADS_def upt_8 segment_def seg_bound_def nb_strides_def bind_e_def chk_def
        c_quot_def in_int_def INT_MAX_def INT_MIN_def)

section \<open>Calls that start with the flag set\<close>

lemma segments_length:
  "segments ts i_start i_end i_step = Inr segs \<Longrightarrow> length segs = length ts"
proof (induction ts arbitrary: segs)
  case Nil
  then show ?case by simp
next
  case (Cons t ts)
  then show ?case
    by (auto simp: bind_e_def split: sum.splits)
qed

lemma stopped_idle_exit:
  "stopped_idle c \<Longrightarrow> t < NB_THREADS \<Longrightarrow>
   stopped_idle (set_worker t ((workers c ! t)\<lparr>w_pc := Exited\<rparr>) c)"
  by (auto simp: stopped_idle_def set_worker_def list_all_length nth_list_update)

lemma stopped_idle_glob:
  "stopped_idle c \<Longrightarrow> glob (set_worker t w c) = glob c"
  by (simp add: set_worker_def)

lemma pc_cases: "p = Scanning \<or> p = Tail \<or> p = Exited"
  by (cases p) auto

lemma scalar_step_stopped:
  assumes "stopped_idle c" and "t < NB_THREADS"
  shows "\<exists>c'. scalar_thread_function t c = Inr c' \<and> stopped_idle c' \<and> glob c' = glob c \<and>
              (w_pc (workers c ! t) \<noteq> Exited \<longrightarrow> w_pc (workers c' ! t) = Exited)"
proof (cases "w_pc (workers c ! t) = Scanning")
  case True
  let ?c' = "set_worker t ((workers c ! t)\<lparr>w_pc := Exited\<rparr>) c"
  have "scalar_thread_function t c = Inr ?c'"
    using assms True by (simp add: scalar_thread_function_def Let_def stopped_idle_def)
  moreover have "w_pc (workers ?c' ! t) = Exited"
    using assms by (simp add: set_worker_def stopped_idle_def)
  moreover have "glob ?c' = glob c" by (simp add: set_worker_def)
  ultimately show ?thesis using stopped_idle_exit[OF assms] by blast
next
  case False
  have "w_pc (workers c ! t) \<noteq> Tail"
    using assms by (simp add: stopped_idle_def list_all_length)
  with False have "w_pc (workers c ! t) = Exited" using pc_cases by blast
  moreover have "scalar_thread_function t c = Inr c"
    using False by (simp add: scalar_thread_function_def Let_def)
  ultimately show ?thesis using assms(1) by simp
qed

lemma watch_stopped:
  "stopped_idle c \<Longrightarrow> stopped_idle (watch_nb_find k c) \<and> glob (watch_nb_find k c) = glob c"
  by (auto simp: watch_nb_find_def stopped_idle_def split: watch.splits)

lemma exec_event_stopped:
  assumes "stopped_idle c"
  shows "\<exists>c'. exec_event scalar_thread_function k e c = Inr c' \<and> stopped_idle c' \<and> glob c' = glob c"
proof (cases e)
  case (Worker t)
  show ?thesis
  proof (cases "t < NB_THREADS")
    case True
    from scalar_step_stopped[OF assms True]
    show ?thesis by (auto simp: exec_event_def Worker True)
  next
    case False
    then show ?thesis using assms by (simp add: exec_event_def Worker)
  qed
next
  case Watcher
  then show ?thesis using watch_stopped[OF assms] by (simp add: exec_event_def)
qed

lemma run_sched_stopped:
  "stopped_idle c \<Longrightarrow>
   \<exists>c'. run_sched scalar_thread_function k sched c = Inr c' \<and> stopped_idle c' \<and> glob c' = glob c"
proof (induction sched arbitrary: c)
  case Nil
  then show ?case by simp
next
  case (Cons e es)
  from exec_event_stopped[OF Cons.prems, of k e]
  obtain c1 where c1: "exec_event scalar_thread_function k e c = Inr c1" "stopped_idle c1"
      "glob c1 = glob c" by blast
  from Cons.IH[OF c1(2)] c1 show ?case by (auto simp: bind_e_Inr)
qed

lemma join_worker_stopped:
  assumes "stopped_idle c" and "t < NB_THREADS"
  shows "\<exists>c'. join_worker scalar_thread_function t c = Some (Inr c') \<and> stopped_idle c' \<and>
              glob c' = glob c"
proof (cases "w_pc (workers c ! t) = Exited")
  case True
  then show ?thesis using assms(1) by (simp add: join_worker_exited)
next
  case False
  from scalar_step_stopped[OF assms] False
  obtain c' where c': "scalar_thread_function t c = Inr c'" "stopped_idle c'" "glob c' = glob c"
      "w_pc (workers c' ! t) = Exited" by blast
  have "join_worker scalar_thread_function t c = join_worker scalar_thread_function t c'"
    using False c'(1) by (rule join_worker_step)
  also have "\<dots> = Some (Inr c')"
    using c'(4) by (rule join_worker_exited)
  finally show ?thesis using c' by blast
qed

lemma join_loop_stopped:
  assumes "stopped_idle c" and "\<And>t. t \<in> set ts \<Longrightarrow> t < NB_THREADS"
  shows "\<exists>c'. join_loop scalar_thread_function ts c nb_find = Some (Inr (c', nb_find)) \<and>
              stopped_idle c' \<and> glob c' = glob c"
  using assms
proof (induction ts arbitrary: c)
  case Nil
  then show ?case by simp
next
  case (Cons t ts)
  have t: "t < NB_THREADS" using Cons.prems(2) by simp
  from join_worker_stopped[OF Cons.prems(1) t]
  obtain c1 where c1: "join_worker scalar_thread_function t c = Some (Inr c1)" "stopped_idle c1"
      "glob c1 = glob c" by blast
  have z: "nb_find_thread (glob c1) ! t = 0"
    using c1(2) t by (simp add: stopped_idle_def)
  from Cons.IH[OF c1(2)] Cons.prems(2)
  obtain c' where "join_loop scalar_thread_function ts c1 nb_find = Some (Inr (c', nb_find))"
      "stopped_idle c'" "glob c' = glob c1" by auto
  then show ?case using c1 z by simp
qed

lemma concat_ind_stopped: "stopped_idle c \<Longrightarrow> concat_ind c = []"
  by (simp add: concat_ind_def stopped_idle_def)

lemma scalar_stopped_finds_nothing:
  assumes "stop_threads g" and "segments [0..<NB_THREADS] i_start i_end i_step = Inr segs"
  shows "thread_find sched g U i_start i_end i_step val k 0 =
         Some (Inr (0, []),
               g\<lparr>nb_find_thread := replicate NB_THREADS 0, U_threads := U, val_threads := val\<rparr>)"
proof -
  let ?g1 = "g\<lparr>nb_find_thread := replicate NB_THREADS 0, U_threads := U, val_threads := val\<rparr>"
  let ?c0 = "\<lparr>glob = ?g1, workers = map (new_worker i_step) segs,
              watcher = (if k \<ge> 0 then Sleeping else NotStarted)\<rparr>"
  have len: "length segs = NB_THREADS"
    using segments_length[OF assms(2)] by simp
  have c0: "stopped_idle ?c0"
    using assms(1) len by (simp add: stopped_idle_def list_all_iff new_worker_def)
  from run_sched_stopped[OF c0, of k sched]
  obtain c1 where c1: "run_sched scalar_thread_function k sched ?c0 = Inr c1" "stopped_idle c1"
      "glob c1 = ?g1" by auto
  from join_loop_stopped[OF c1(2), of "[0..<NB_THREADS]" 0]
  obtain c2 where c2: "join_loop scalar_thread_function [0..<NB_THREADS] c1 0 = Some (Inr (c2, 0))"
      "stopped_idle c2" "glob c2 = glob c1" by auto
  have g2: "(glob c2)\<lparr>stop_threads := True\<rparr> = ?g1"
    using c2(3) c1(3) assms(1) by simp
  show ?thesis
    unfolding thread_find_def dispatch_def
    by (simp add: assms(2) Let_def c1(1) c2(1) g2 concat_ind_stopped[OF c2(2)])
qed

lemma thread_find_sets_stop:
  assumes "thread_find sched g U i_start i_end i_step val k ver = Some (Inr r, g')"
  shows "stop_threads g'"
    and "\<exists>segs. segments [0..<NB_THREADS] i_start i_end i_step = Inr segs"
proof -
  have *: "stop_threads g' \<and> (\<exists>segs. segments [0..<NB_THREADS] i_start i_end i_step = Inr segs)"
    if "dispatch thread_function sched g U i_start i_end i_step val k = Some (Inr r, g')"
    for thread_function
    using that unfolding dispatch_def Let_def
    by (auto split: sum.splits option.splits prod.splits if_splits)
  from assms show "stop_threads g'"
    and "\<exists>segs. segments [0..<NB_THREADS] i_start i_end i_step = Inr segs"
    using * by (auto simp: thread_find_def split: if_splits)
qed

section \<open>Executions of thread\_find that contradict the specification\<close>

text \<open>
  Claim C1 does not hold of the code. The last segment ends at
  \<open>i_start + M * i_step - 1\<close>, which lies beyond \<open>i_end\<close> unless the range holds a whole number
  of strides, and the second loop of the vector thread function scans up to that end.
  On a sixteen-element array, range \<open>[0, 9]\<close>, step 8, \<open>vect_find\<close> returns the ten matches
  of the range while \<open>thread_find\<close> (no threshold, so no watcher and nothing that depends on
  the schedule) returns sixteen, six of them beyond \<open>i_end\<close>. On a ten-element array the
  eighth thread reads indices 10 to 15, outside the array.
\<close>

theorem thread_find_vector_reads_past_end:
  "vect_find (replicate 16 5) 0 9 8 5 = Some (Inr (10, [0, 1, 2, 3, 4, 5, 6, 7, 8, 9])) \<and>
   thread_find [] initial_globals (replicate 16 5) 0 9 8 5 (- 1) 1 =
     Some (Inr (16, [0, 1, 2, 3, 4, 5, 6, 7, 8, 9, 10, 11, 12, 13, 14, 15]),
           \<lparr>stop_threads = True, nb_find_thread = [0, 0, 0, 8, 0, 0, 0, 8],
            U_threads = replicate 16 5, val_threads = 5\<rparr>) \<and>
   vect_find [5, 2, 5, 5, 1, 5, 7, 7, 5, 0] 0 9 8 5 = Some (Inr (5, [0, 2, 3, 5, 8])) \<and>
   thread_find [] initial_globals [5, 2, 5, 5, 1, 5, 7, 7, 5, 0] 0 9 8 5 (- 1) 1 =
     Some (Inl OutOfBounds,
           \<lparr>stop_threads = False, nb_find_thread = [0, 0, 0, 0, 0, 0, 0, 0],
            U_threads = [5, 2, 5, 5, 1, 5, 7, 7, 5, 0], val_threads = 5\<rparr>)"
  by code_simp

text \<open>
  Claim C2 does not hold of the code. \<open>stop_threads\<close> is set at the end of every call and
  never cleared, so in a second call every scalar thread exits at its first iteration:
  whatever the schedule, the call returns count 0, although the range holds 4 matches and
  the threshold is 2.
\<close>

theorem threshold_count_after_stale_flag:
  "find_c [5, 2, 5, 5, 1, 5] 0 5 1 5 = Some (Inr (4, [0, 2, 3, 5])) \<and>
   thread_find [] initial_globals [5, 2, 5, 5, 1, 5] 0 5 1 5 2 0 =
     Some (Inr (2, [0, 2]),
           \<lparr>stop_threads = True, nb_find_thread = [0, 1, 0, 1, 0, 1, 0, 1],
            U_threads = [5, 2, 5, 5, 1, 5], val_threads = 5\<rparr>) \<and>
   thread_find sched
       \<lparr>stop_threads = True, nb_find_thread = [0, 1, 0, 1, 0, 1, 0, 1],
        U_threads = [5, 2, 5, 5, 1, 5], val_threads = 5\<rparr>
       [5, 2, 5, 5, 1, 5] 0 5 1 5 2 0 =
     Some (Inr (0, []),
           \<lparr>stop_threads = True, nb_find_thread = [0, 0, 0, 0, 0, 0, 0, 0],
            U_threads = [5, 2, 5, 5, 1, 5], val_threads = 5\<rparr>)"
proof (intro conjI)
  show "find_c [5, 2, 5, 5, 1, 5] 0 5 1 5 = Some (Inr (4, [0, 2, 3, 5]))"
    by code_simp
  show "thread_find [] initial_globals [5, 2, 5, 5, 1, 5] 0 5 1 5 2 0 =
     Some (Inr (2, [0, 2]),
           \<lparr>stop_threads = True, nb_find_thread = [0, 1, 0, 1, 0, 1, 0, 1],
            U_threads = [5, 2, 5, 5, 1, 5], val_threads = 5\<rparr>)"
    by code_simp
  have segs: "segments [0..<NB_THREADS] 0 5 1 =
      Inr [(0, - 1), (0, 0), (1, 1), (2, 2), (3, 2), (3, 3), (4, 4), (5, 5)]"
    by code_simp
  show "thread_find sched
       \<lparr>stop_threads = True, nb_find_thread = [0, 1, 0, 1, 0, 1, 0, 1],
        U_threads = [5, 2, 5, 5, 1, 5], val_threads = 5\<rparr>
       [5, 2, 5, 5, 1, 5] 0 5 1 5 2 0 =
     Some (Inr (0, []),
           \<lparr>stop_threads = True, nb_find_thread = [0, 0, 0, 0, 0, 0, 0, 0],
            U_threads = [5, 2, 5, 5, 1, 5], val_threads = 5\<rparr>)"
    by (subst scalar_stopped_finds_nothing[OF _ segs]) (simp_all add: NB_THREADS_def numeral_eq_Suc)
qed

text \<open>
  Claim C3 does not hold of the code. The vector thread function compares lanes as
  floating-point numbers, for which \<open>-0\<close> (the pattern of \<open>INT_MIN\<close>) equals \<open>+0\<close>: searching
  0 in an array of 72 elements whose element 56 is \<open>INT_MIN\<close>, \<open>thread_find\<close> returns index
  56 although \<open>U[56]\<close> is not the target.
\<close>

theorem vector_match_of_other_zero:
  "thread_find [] initial_globals (replicate 56 1 @ [0x80000000] @ replicate 15 1) 0 71 8 0 (- 1) 1 =
     Some (Inr (1, [56]),
           \<lparr>stop_threads = True, nb_find_thread = [0, 0, 0, 0, 0, 0, 0, 1],
            U_threads = replicate 56 1 @ [0x80000000] @ replicate 15 1, val_threads = 0\<rparr>) \<and>
   (replicate 56 1 @ [0x80000000] @ replicate 15 1 :: word32 list) ! 56 \<noteq> 0 \<and>
   56 < length (replicate 56 1 @ [0x80000000] @ replicate 15 1 :: word32 list)"
  by code_simp

text \<open>
  Claim C6 does not hold of the code. A call that returns normally leaves \<open>stop_threads\<close>
  set, and nothing clears it: any following call with the scalar thread function over the
  same range, on any array, with any target, threshold and schedule, returns no match
  (its counters are reset, its flag is not).
\<close>

theorem stop_flag_left_set:
  assumes "thread_find sched g U i_start i_end i_step val k ver = Some (Inr r, g')"
  shows "stop_threads g' \<and>
         thread_find sched' g' U' i_start i_end i_step val' k' 0 =
           Some (Inr (0, []),
                 g'\<lparr>nb_find_thread := replicate NB_THREADS 0, U_threads := U', val_threads := val'\<rparr>)"
proof -
  from thread_find_sets_stop[OF assms]
  obtain segs where "stop_threads g'" "segments [0..<NB_THREADS] i_start i_end i_step = Inr segs"
    by blast
  then show ?thesis
    using scalar_stopped_finds_nothing[of g' i_start i_end i_step segs sched' U' val' k'] by simp
qed

theorem stop_flag_left_set_witness:
  "thread_find [] initial_globals [5, 2, 5, 5, 1, 5] 0 5 1 5 (- 1) 0 =
     Some (Inr (4, [0, 2, 3, 5]),
           \<lparr>stop_threads = True, nb_find_thread = [0, 1, 0, 1, 0, 1, 0, 1],
            U_threads = [5, 2, 5, 5, 1, 5], val_threads = 5\<rparr>) \<and>
   stop_threads \<lparr>stop_threads = True, nb_find_thread = [0, 1, 0, 1, 0, 1, 0, 1],
                 U_threads = [5, 2, 5, 5, 1, 5], val_threads = 5\<rparr> \<and>
   thread_find [] \<lparr>stop_threads = True, nb_find_thread = [0, 1, 0, 1, 0, 1, 0, 1],
                   U_threads = [5, 2, 5, 5, 1, 5], val_threads = 5\<rparr>
       [5, 2, 5, 5, 1, 5] 0 5 1 5 (- 1) 0 =
     Some (Inr (0, []),
           \<lparr>stop_threads = True, nb_find_thread = replicate NB_THREADS 0,
            U_threads = [5, 2, 5, 5, 1, 5], val_threads = 5\<rparr>)"
proof -
  have first: "thread_find [] initial_globals [5, 2, 5, 5, 1, 5] 0 5 1 5 (- 1) 0 =
     Some (Inr (4, [0, 2, 3, 5]),
           \<lparr>stop_threads = True, nb_find_thread = [0, 1, 0, 1, 0, 1, 0, 1],
            U_threads = [5, 2, 5, 5, 1, 5], val_threads = 5\<rparr>)"
    by code_simp
  from stop_flag_left_set[OF first, of "[]" "[5, 2, 5, 5, 1, 5]" 5 "- 1"] first
  show ?thesis by simp
qed

section \<open>Calls that start with the flag clear\<close>

lemma sum_take_update_mono:
  fixes cs :: "int list"
  assumes "t < length cs" and "cs ! t \<le> n"
  shows "sum_list (take j cs) \<le> sum_list (take j (cs[t := n]))"
proof (rule sum_list_mono2)
  show "length (take j cs) = length (take j (cs[t := n]))" by simp
  fix i
  show "i < length (take j cs) \<longrightarrow> take j cs ! i \<le> take j (cs[t := n]) ! i"
    using assms by (auto simp: nth_list_update)
qed

lemma sum_update_mono:
  fixes cs :: "int list"
  assumes "t < length cs" and "cs ! t \<le> n"
  shows "sum_list cs \<le> sum_list (cs[t := n])"
  using sum_take_update_mono[OF assms, of "length cs"] by simp

lemma set_count_same: "set_count t (nb_find_thread (glob c) ! t) c = c"
  by (simp add: set_count_def)

lemma scalar_inv_update:
  assumes inv: "scalar_inv U val i_step segs k c" and t: "t < NB_THREADS"
    and wok: "scalar_worker_ok U val i_step (segs ! t) w' n'"
    and mono: "nb_find_thread (glob c) ! t \<le> n'"
    and ex: "w_pc w' = Exited \<Longrightarrow> w_end w' < w_i w' \<or> stop_threads (glob c)"
  shows "scalar_inv U val i_step segs k (set_worker t w' (set_count t n' c))"
proof -
  let ?c' = "set_worker t w' (set_count t n' c)"
  let ?g = "glob c"
  have lw: "length (workers c) = NB_THREADS" and lc: "length (nb_find_thread ?g) = NB_THREADS"
    using inv by (simp_all add: scalar_inv_def)
  have g': "glob ?c' = ?g\<lparr>nb_find_thread := (nb_find_thread ?g)[t := n']\<rparr>"
    by (simp add: set_worker_def set_count_def)
  have ws': "workers ?c' = (workers c)[t := w']"
    by (simp add: set_worker_def set_count_def)
  have wa': "watcher ?c' = watcher c"
    by (simp add: set_worker_def set_count_def)
  have wt: "workers ?c' ! u = (if u = t then w' else workers c ! u)" if "u < NB_THREADS" for u
    using that lw by (simp add: ws' nth_list_update)
  have ct: "nb_find_thread (glob ?c') ! u = (if u = t then n' else nb_find_thread ?g ! u)"
    if "u < NB_THREADS" for u
    using that lc by (simp add: g' nth_list_update)
  have st: "stop_threads (glob ?c') = stop_threads ?g" by (simp add: g')
  have sums: "sum_list (take j (nb_find_thread ?g)) \<le> sum_list (take j (nb_find_thread (glob ?c')))"
    for j
    unfolding g' using t lc mono by (simp add: sum_take_update_mono)
  have wat: "watcher_ok k ?c'"
    using inv sums unfolding scalar_inv_def watcher_ok_def wa'
    by (auto split: watch.splits intro: order_trans)
  have tot: "sum_list (nb_find_thread ?g) \<le> sum_list (nb_find_thread (glob ?c'))"
    using sums[of "length (nb_find_thread ?g)"] by (simp add: g')
  show ?thesis
    unfolding scalar_inv_def
  proof (intro conjI allI impI)
    show "U_threads (glob ?c') = U" "val_threads (glob ?c') = val"
      using inv by (simp_all add: g' scalar_inv_def)
    show "length (workers ?c') = NB_THREADS" by (simp add: ws' lw)
    show "length (nb_find_thread (glob ?c')) = NB_THREADS" by (simp add: g' lc)
    show "watcher_ok k ?c'" by (rule wat)
  next
    fix u assume u: "u < NB_THREADS"
    show "scalar_worker_ok U val i_step (segs ! u) (workers ?c' ! u)
            (nb_find_thread (glob ?c') ! u)"
      using inv u wok by (simp add: wt ct scalar_inv_def)
    assume "w_pc (workers ?c' ! u) = Exited"
    then show "w_end (workers ?c' ! u) < w_i (workers ?c' ! u) \<or> stop_threads (glob ?c')"
      using inv u ex unfolding st by (auto simp: wt scalar_inv_def split: if_splits)
  next
    assume "stop_threads (glob ?c')"
    then have "0 \<le> k \<and> k < sum_list (nb_find_thread ?g)"
      using inv by (simp add: st scalar_inv_def)
    then show "0 \<le> k" "k < sum_list (nb_find_thread (glob ?c'))"
      using tot by auto
  qed
qed

lemma scalar_step_inv:
  assumes inv: "scalar_inv U val i_step segs k c" and t: "t < NB_THREADS"
    and safe: "segment_safe U i_step (segs ! t)" and pos: "0 < i_step"
  shows "\<exists>c'. scalar_thread_function t c = Inr c' \<and> scalar_inv U val i_step segs k c' \<and>
              stop_threads (glob c') = stop_threads (glob c) \<and>
              (\<forall>u<NB_THREADS. nb_find_thread (glob c) ! u \<le> nb_find_thread (glob c') ! u) \<and>
              (\<forall>u. u \<noteq> t \<longrightarrow> workers c' ! u = workers c ! u) \<and>
              (w_pc (workers c ! t) = Exited \<longrightarrow> c' = c) \<and>
              (w_pc (workers c ! t) \<noteq> Exited \<longrightarrow>
                 w_pc (workers c' ! t) = Exited \<or>
                 length (stepped (w_i (workers c' ! t)) (w_end (workers c' ! t)) i_step)
                   < length (stepped (w_i (workers c ! t)) (w_end (workers c ! t)) i_step))"
proof -
  let ?w = "workers c ! t" and ?g = "glob c"
  let ?n = "nb_find_thread ?g ! t"
  have lw: "length (workers c) = NB_THREADS" and lc: "length (nb_find_thread ?g) = NB_THREADS"
    and Ug: "U_threads ?g = U" and vg: "val_threads ?g = val"
    using inv by (simp_all add: scalar_inv_def)
  have wok: "scalar_worker_ok U val i_step (segs ! t) ?w ?n"
    using inv t by (simp add: scalar_inv_def)
  then obtain pre where we: "w_end ?w = snd (segs ! t)" and ws: "w_step ?w = i_step"
      and nt: "w_pc ?w \<noteq> Tail" and n: "?n = int (length (w_ind ?w))"
      and pre: "stepped (fst (segs ! t)) (snd (segs ! t)) i_step = pre @ stepped (w_i ?w) (snd (segs ! t)) i_step"
      and ind: "w_ind ?w = filter (\<lambda>x. U ! nat x = val) pre"
    by (auto simp: scalar_worker_ok_def)
  have upd: "\<exists>c'. Inr (set_worker t w' (set_count t n' c)) = Inr c' \<and>
              scalar_inv U val i_step segs k c' \<and>
              stop_threads (glob c') = stop_threads (glob c) \<and>
              (\<forall>u<NB_THREADS. nb_find_thread (glob c) ! u \<le> nb_find_thread (glob c') ! u) \<and>
              (\<forall>u. u \<noteq> t \<longrightarrow> workers c' ! u = workers c ! u) \<and>
              (w_pc (workers c' ! t) = Exited \<or>
                 length (stepped (w_i (workers c' ! t)) (w_end (workers c' ! t)) i_step)
                   < length (stepped (w_i ?w) (w_end ?w) i_step))"
    if wok': "scalar_worker_ok U val i_step (segs ! t) w' n'" and mono: "?n \<le> n'"
      and ex: "w_pc w' = Exited \<Longrightarrow> w_end w' < w_i w' \<or> stop_threads ?g"
      and dec: "w_pc w' = Exited \<or>
                 length (stepped (w_i w') (w_end w') i_step)
                   < length (stepped (w_i ?w) (w_end ?w) i_step)"
    for w' n'
  proof -
    let ?c' = "set_worker t w' (set_count t n' c)"
    have "scalar_inv U val i_step segs k ?c'"
      by (rule scalar_inv_update[OF inv t wok' mono ex])
    moreover have "stop_threads (glob ?c') = stop_threads ?g"
      by (simp add: set_worker_def set_count_def)
    moreover have "nb_find_thread ?g ! u \<le> nb_find_thread (glob ?c') ! u" if "u < NB_THREADS" for u
      using that lc mono by (cases "u = t") (simp_all add: set_worker_def set_count_def)
    moreover have "workers ?c' ! t = w'"
      using t lw by (simp add: set_worker_def set_count_def)
    moreover have "workers ?c' ! u = workers c ! u" if "u \<noteq> t" for u
      using that by (simp add: set_worker_def set_count_def)
    ultimately show ?thesis using dec by auto
  qed
  show ?thesis
  proof (cases "w_pc ?w = Scanning")
    case False
    then have ex: "w_pc ?w = Exited" using nt pc_cases by blast
    have "scalar_thread_function t c = Inr c"
      using False by (simp add: scalar_thread_function_def Let_def)
    then show ?thesis using inv ex by auto
  next
    case sc: True
    show ?thesis
    proof (cases "w_i ?w \<le> w_end ?w \<and> \<not> stop_threads ?g")
      case False
      let ?w' = "?w\<lparr>w_pc := Exited\<rparr>"
      have st: "scalar_thread_function t c = Inr (set_worker t ?w' (set_count t ?n c))"
        using sc False by (auto simp: scalar_thread_function_def Let_def set_count_same)
      have "scalar_worker_ok U val i_step (segs ! t) ?w' ?n"
        using wok by (simp add: scalar_worker_ok_def)
      from upd[OF this] False st sc show ?thesis by auto
    next
      case True
      then have le: "w_i ?w \<le> w_end ?w" and ns: "\<not> stop_threads ?g" by auto
      have cons: "stepped (w_i ?w) (snd (segs ! t)) i_step =
                  w_i ?w # stepped (w_i ?w + i_step) (snd (segs ! t)) i_step"
        using le we pos by (intro stepped_Cons) auto
      have "w_i ?w \<in> set (stepped (fst (segs ! t)) (snd (segs ! t)) i_step)"
        by (simp add: pre cons)
      with safe have i0: "0 \<le> w_i ?w" and iU: "w_i ?w < int (length U)"
          and iM: "w_i ?w + i_step \<le> INT_MAX"
        by (auto simp: segment_safe_def list_all_iff)
      have inb: "in_bounds U (w_i ?w)" using i0 iU by (simp add: in_bounds_def)
      have rng: "in_int (w_i ?w + i_step)" using i0 iM pos by (intro in_int_nonneg) auto
      have shrink: "length (stepped (w_i ?w + i_step) (w_end ?w) i_step)
                    < length (stepped (w_i ?w) (w_end ?w) i_step)"
        using cons we by simp
      show ?thesis
      proof (cases "U ! nat (w_i ?w) = val")
        case hit: True
        let ?w' = "?w\<lparr>w_i := w_i ?w + i_step, w_ind := w_ind ?w @ [w_i ?w]\<rparr>"
        have st: "scalar_thread_function t c = Inr (set_worker t ?w' (set_count t (?n + 1) c))"
          using sc le ns inb rng hit
          by (simp add: scalar_thread_function_def Let_def Ug vg ws)
        have wok': "scalar_worker_ok U val i_step (segs ! t) ?w' (?n + 1)"
          unfolding scalar_worker_ok_def
          using we ws nt n hit
          by (auto intro!: exI[of _ "pre @ [w_i ?w]"] simp: pre cons ind)
        from upd[OF wok'] st sc shrink show ?thesis by auto
      next
        case miss: False
        let ?w' = "?w\<lparr>w_i := w_i ?w + i_step\<rparr>"
        have st: "scalar_thread_function t c = Inr (set_worker t ?w' (set_count t ?n c))"
          using sc le ns inb rng miss
          by (simp add: scalar_thread_function_def Let_def Ug vg ws set_count_same)
        have wok': "scalar_worker_ok U val i_step (segs ! t) ?w' ?n"
          unfolding scalar_worker_ok_def
          using we ws nt n miss
          by (auto intro!: exI[of _ "pre @ [w_i ?w]"] simp: pre cons ind)
        from upd[OF wok'] st sc shrink show ?thesis by auto
      qed
    qed
  qed
qed


lemma watch_inv:
  assumes inv: "scalar_inv U val i_step segs k c"
  shows "scalar_inv U val i_step segs k (watch_nb_find k c) \<and>
         nb_find_thread (glob (watch_nb_find k c)) = nb_find_thread (glob c) \<and>
         workers (watch_nb_find k c) = workers c \<and>
         (stop_threads (glob c) \<longrightarrow> stop_threads (glob (watch_nb_find k c)))"
proof (cases "watcher c")
  case NotStarted
  then show ?thesis using inv by (simp add: watch_nb_find_def)
next
  case Finished
  then show ?thesis using inv by (simp add: watch_nb_find_def)
next
  case Sleeping
  then show ?thesis using inv
    by (auto simp: watch_nb_find_def scalar_inv_def watcher_ok_def)
next
  case (Summing j acc)
  let ?cs = "nb_find_thread (glob c)"
  have lc: "length ?cs = NB_THREADS" using inv by (simp add: scalar_inv_def)
  have ok: "0 \<le> k" "j \<le> NB_THREADS" "acc \<le> sum_list (take j ?cs)"
    using inv Summing by (simp_all add: scalar_inv_def watcher_ok_def)
  show ?thesis
  proof (cases "j < NB_THREADS")
    case True
    have "take (Suc j) ?cs = take j ?cs @ [?cs ! j]"
      using True lc by (simp add: take_Suc_conv_app_nth)
    then have "acc + ?cs ! j \<le> sum_list (take (j + 1) ?cs)" using ok(3) by simp
    then show ?thesis using inv Summing True ok
      by (auto simp: watch_nb_find_def scalar_inv_def watcher_ok_def)
  next
    case False
    then have "take j ?cs = ?cs" using ok(2) lc by simp
    then have "acc \<le> sum_list ?cs" using ok(3) by simp
    then show ?thesis using inv Summing False ok
      by (auto simp: watch_nb_find_def scalar_inv_def watcher_ok_def)
  qed
qed

lemma advances_refl: "advances c c"
  by (simp add: advances_def)

lemma advances_trans: "advances a b \<Longrightarrow> advances b c \<Longrightarrow> advances a c"
  unfolding advances_def by (meson order_trans)

lemma scalar_step_advances:
  assumes "scalar_inv U val i_step segs k c" and "t < NB_THREADS"
    and "segment_safe U i_step (segs ! t)" and "0 < i_step"
  shows "\<exists>c'. scalar_thread_function t c = Inr c' \<and> scalar_inv U val i_step segs k c' \<and>
              advances c c' \<and> stop_threads (glob c') = stop_threads (glob c) \<and>
              (w_pc (workers c ! t) \<noteq> Exited \<longrightarrow>
                 w_pc (workers c' ! t) = Exited \<or>
                 length (stepped (w_i (workers c' ! t)) (w_end (workers c' ! t)) i_step)
                   < length (stepped (w_i (workers c ! t)) (w_end (workers c ! t)) i_step))"
proof -
  from scalar_step_inv[OF assms]
  obtain c' where c': "scalar_thread_function t c = Inr c'" "scalar_inv U val i_step segs k c'"
      "stop_threads (glob c') = stop_threads (glob c)"
      "\<forall>u<NB_THREADS. nb_find_thread (glob c) ! u \<le> nb_find_thread (glob c') ! u"
      "\<forall>u. u \<noteq> t \<longrightarrow> workers c' ! u = workers c ! u"
      "w_pc (workers c ! t) = Exited \<longrightarrow> c' = c"
      "w_pc (workers c ! t) \<noteq> Exited \<longrightarrow>
                 w_pc (workers c' ! t) = Exited \<or>
                 length (stepped (w_i (workers c' ! t)) (w_end (workers c' ! t)) i_step)
                   < length (stepped (w_i (workers c ! t)) (w_end (workers c ! t)) i_step)"
    by blast
  have "w_pc (workers c' ! u) = Exited" if "w_pc (workers c ! u) = Exited" for u
    using that c'(5,6) by (cases "u = t") auto
  then have "advances c c'" using c'(3,4) by (simp add: advances_def)
  with c' show ?thesis by blast
qed

lemma exec_event_inv:
  assumes inv: "scalar_inv U val i_step segs k c"
    and safe: "\<And>t. t < NB_THREADS \<Longrightarrow> segment_safe U i_step (segs ! t)" and pos: "0 < i_step"
  shows "\<exists>c'. exec_event scalar_thread_function k e c = Inr c' \<and>
              scalar_inv U val i_step segs k c' \<and> advances c c'"
proof (cases e)
  case (Worker t)
  show ?thesis
  proof (cases "t < NB_THREADS")
    case True
    from scalar_step_advances[OF inv True safe[OF True] pos]
    show ?thesis by (auto simp: exec_event_def Worker True)
  next
    case False
    then show ?thesis using inv by (simp add: exec_event_def Worker advances_refl)
  qed
next
  case Watcher
  from watch_inv[OF inv] have "advances c (watch_nb_find k c)"
    by (simp add: advances_def)
  then show ?thesis using watch_inv[OF inv] Watcher by (simp add: exec_event_def)
qed

lemma run_sched_inv:
  assumes safe: "\<And>t. t < NB_THREADS \<Longrightarrow> segment_safe U i_step (segs ! t)" and pos: "0 < i_step"
  shows "scalar_inv U val i_step segs k c \<Longrightarrow>
         \<exists>c'. run_sched scalar_thread_function k sched c = Inr c' \<and>
              scalar_inv U val i_step segs k c' \<and> advances c c'"
proof (induction sched arbitrary: c)
  case Nil
  then show ?case by (simp add: advances_refl)
next
  case (Cons e es)
  from exec_event_inv[OF Cons.prems safe pos, of e]
  obtain c1 where c1: "exec_event scalar_thread_function k e c = Inr c1"
      "scalar_inv U val i_step segs k c1" "advances c c1" by blast
  from Cons.IH[OF c1(2)]
  obtain c' where "run_sched scalar_thread_function k es c1 = Inr c'"
      "scalar_inv U val i_step segs k c'" "advances c1 c'" by blast
  with c1 show ?case by (auto simp: bind_e_Inr intro: advances_trans)
qed

lemma join_worker_inv:
  assumes t: "t < NB_THREADS" and safe: "segment_safe U i_step (segs ! t)" and pos: "0 < i_step"
  shows "scalar_inv U val i_step segs k c \<Longrightarrow>
         \<exists>c'. join_worker scalar_thread_function t c = Some (Inr c') \<and>
              scalar_inv U val i_step segs k c' \<and> advances c c' \<and>
              stop_threads (glob c') = stop_threads (glob c) \<and>
              w_pc (workers c' ! t) = Exited"
proof (induction "length (stepped (w_i (workers c ! t)) (w_end (workers c ! t)) i_step)"
       arbitrary: c rule: less_induct)
  case less
  show ?case
  proof (cases "w_pc (workers c ! t) = Exited")
    case True
    then show ?thesis using less.prems by (simp add: join_worker_exited advances_refl)
  next
    case False
    from scalar_step_advances[OF less.prems t safe pos] False
    obtain c1 where c1: "scalar_thread_function t c = Inr c1" "scalar_inv U val i_step segs k c1"
        "advances c c1" "stop_threads (glob c1) = stop_threads (glob c)"
        "w_pc (workers c1 ! t) = Exited \<or>
           length (stepped (w_i (workers c1 ! t)) (w_end (workers c1 ! t)) i_step)
             < length (stepped (w_i (workers c ! t)) (w_end (workers c ! t)) i_step)"
      by blast
    have j: "join_worker scalar_thread_function t c = join_worker scalar_thread_function t c1"
      using False c1(1) by (rule join_worker_step)
    show ?thesis
    proof (cases "w_pc (workers c1 ! t) = Exited")
      case True
      then have "join_worker scalar_thread_function t c1 = Some (Inr c1)"
        by (rule join_worker_exited)
      with j c1 True show ?thesis by auto
    next
      case nex: False
      with c1(5) have "length (stepped (w_i (workers c1 ! t)) (w_end (workers c1 ! t)) i_step)
             < length (stepped (w_i (workers c ! t)) (w_end (workers c ! t)) i_step)" by simp
      from less.hyps[OF this c1(2)]
      obtain c' where "join_worker scalar_thread_function t c1 = Some (Inr c')"
          "scalar_inv U val i_step segs k c'" "advances c1 c'"
          "stop_threads (glob c') = stop_threads (glob c1)" "w_pc (workers c' ! t) = Exited"
        by blast
      with j c1 show ?thesis by (auto intro: advances_trans)
    qed
  qed
qed

lemma worker_found_prefix:
  assumes "scalar_inv U val i_step segs k c" and "t < NB_THREADS"
  shows "prefix (w_ind (workers c ! t))
           (filter (\<lambda>x. U ! nat x = val) (stepped (fst (segs ! t)) (snd (segs ! t)) i_step))"
    and "nb_find_thread (glob c) ! t = int (length (w_ind (workers c ! t)))"
proof -
  from assms obtain pre where
    "stepped (fst (segs ! t)) (snd (segs ! t)) i_step =
       pre @ stepped (w_i (workers c ! t)) (snd (segs ! t)) i_step"
    "w_ind (workers c ! t) = filter (\<lambda>x. U ! nat x = val) pre"
    by (auto simp: scalar_inv_def scalar_worker_ok_def)
  then show "prefix (w_ind (workers c ! t))
           (filter (\<lambda>x. U ! nat x = val) (stepped (fst (segs ! t)) (snd (segs ! t)) i_step))"
    by (simp add: prefix_def)
  show "nb_find_thread (glob c) ! t = int (length (w_ind (workers c ! t)))"
    using assms by (simp add: scalar_inv_def scalar_worker_ok_def)
qed

lemma worker_found_all:
  assumes "scalar_inv U val i_step segs k c" and "t < NB_THREADS"
    and "w_pc (workers c ! t) = Exited" and "\<not> stop_threads (glob c)"
  shows "w_ind (workers c ! t) =
           filter (\<lambda>x. U ! nat x = val) (stepped (fst (segs ! t)) (snd (segs ! t)) i_step)"
proof -
  from assms(1,2) obtain pre where pre:
    "stepped (fst (segs ! t)) (snd (segs ! t)) i_step =
       pre @ stepped (w_i (workers c ! t)) (snd (segs ! t)) i_step"
    "w_ind (workers c ! t) = filter (\<lambda>x. U ! nat x = val) pre"
    "w_end (workers c ! t) = snd (segs ! t)"
    by (auto simp: scalar_inv_def scalar_worker_ok_def)
  have "w_end (workers c ! t) < w_i (workers c ! t)"
    using assms by (auto simp: scalar_inv_def)
  then have "stepped (w_i (workers c ! t)) (snd (segs ! t)) i_step = []"
    using pre(3) by (simp add: stepped_Nil)
  with pre show ?thesis by simp
qed

lemma join_loop_inv:
  assumes safe: "\<And>t. t < NB_THREADS \<Longrightarrow> segment_safe U i_step (segs ! t)" and pos: "0 < i_step"
  shows "scalar_inv U val i_step segs k c \<Longrightarrow> (\<And>t. t \<in> set ts \<Longrightarrow> t < NB_THREADS) \<Longrightarrow>
         \<exists>c' nb'. join_loop scalar_thread_function ts c nb = Some (Inr (c', nb')) \<and>
              scalar_inv U val i_step segs k c' \<and> advances c c' \<and>
              stop_threads (glob c') = stop_threads (glob c) \<and>
              (\<forall>t\<in>set ts. w_pc (workers c' ! t) = Exited) \<and>
              nb + (\<Sum>t\<leftarrow>ts. nb_find_thread (glob c) ! t) \<le> nb' \<and>
              (\<not> stop_threads (glob c) \<longrightarrow>
                 nb' = nb + (\<Sum>t\<leftarrow>ts. int (length (filter (\<lambda>x. U ! nat x = val)
                                   (stepped (fst (segs ! t)) (snd (segs ! t)) i_step)))))"
proof (induction ts arbitrary: c nb)
  case Nil
  then show ?case by (simp add: advances_refl)
next
  case (Cons t ts)
  have t: "t < NB_THREADS" using Cons.prems(2) by simp
  let ?full = "\<lambda>t. filter (\<lambda>x. U ! nat x = val) (stepped (fst (segs ! t)) (snd (segs ! t)) i_step)"
  from join_worker_inv[OF t safe[OF t] pos Cons.prems(1)]
  obtain c1 where c1: "join_worker scalar_thread_function t c = Some (Inr c1)"
      "scalar_inv U val i_step segs k c1" "advances c c1"
      "stop_threads (glob c1) = stop_threads (glob c)" "w_pc (workers c1 ! t) = Exited"
    by blast
  let ?a = "nb_find_thread (glob c1) ! t"
  from Cons.IH[OF c1(2), of "nb + ?a"] Cons.prems(2)
  obtain c' nb' where c': "join_loop scalar_thread_function ts c1 (nb + ?a) = Some (Inr (c', nb'))"
      "scalar_inv U val i_step segs k c'" "advances c1 c'"
      "stop_threads (glob c') = stop_threads (glob c1)"
      "\<forall>t\<in>set ts. w_pc (workers c' ! t) = Exited"
      "nb + ?a + (\<Sum>t\<leftarrow>ts. nb_find_thread (glob c1) ! t) \<le> nb'"
      "\<not> stop_threads (glob c1) \<longrightarrow> nb' = nb + ?a + (\<Sum>t\<leftarrow>ts. int (length (?full t)))"
    by auto
  have run: "join_loop scalar_thread_function (t # ts) c nb = Some (Inr (c', nb'))"
    using c1(1) c'(1) by simp
  have mono: "nb_find_thread (glob c) ! u \<le> nb_find_thread (glob c1) ! u" if "u < NB_THREADS" for u
    using c1(3) that by (simp add: advances_def)
  have "(\<Sum>t\<leftarrow>ts. nb_find_thread (glob c) ! t) \<le> (\<Sum>t\<leftarrow>ts. nb_find_thread (glob c1) ! t)"
    using Cons.prems(2) by (intro sum_list_mono mono) auto
  then have low: "nb + (\<Sum>t\<leftarrow>t # ts. nb_find_thread (glob c) ! t) \<le> nb'"
    using c'(6) mono[OF t] by simp
  have ex: "\<forall>u\<in>set (t # ts). w_pc (workers c' ! u) = Exited"
    using c1(5) c'(3,5) by (auto simp: advances_def)
  have full: "nb' = nb + (\<Sum>t\<leftarrow>t # ts. int (length (?full t)))" if ns: "\<not> stop_threads (glob c)"
  proof -
    have ns1: "\<not> stop_threads (glob c1)" using ns c1(4) by simp
    have "w_ind (workers c1 ! t) = ?full t"
      by (rule worker_found_all[OF c1(2) t c1(5) ns1])
    then have "?a = int (length (?full t))"
      using worker_found_prefix(2)[OF c1(2) t] by simp
    with c'(7) ns1 show ?thesis by simp
  qed
  show ?case
    using run c'(2) advances_trans[OF c1(3) c'(3)] c'(4) c1(4) ex low full
    by (intro exI[of _ c'] exI[of _ nb']) simp
qed

lemma subseq_concat_map:
  "(\<And>t. t \<in> set ts \<Longrightarrow> subseq (p t) (q t)) \<Longrightarrow> subseq (concat (map p ts)) (concat (map q ts))"
  by (induction ts) (auto intro: list_emb_append_mono)

lemma strict_sorted_map_stride:
  assumes "0 < i_step"
  shows "sorted_wrt (<) (map (\<lambda>j. i_start + j * i_step) [a..c])"
proof -
  have "sorted_wrt (<) [a..c]"
    by (simp add: strict_sorted_iff)
  then have "sorted_wrt (\<lambda>x y. i_start + x * i_step < i_start + y * i_step) [a..c]"
  proof (rule sorted_wrt_mono_rel[rotated])
    fix x y :: int
    assume "x < y"
    then show "i_start + x * i_step < i_start + y * i_step"
      using assms by (simp add: mult_less_cancel_right)
  qed
  then show ?thesis by (simp add: sorted_wrt_map)
qed

lemma strict_sorted_unique:
  fixes xs ys :: "int list"
  assumes "sorted_wrt (<) xs" and "sorted_wrt (<) ys" and "set xs = set ys"
  shows "xs = ys"
  using assms by (intro sorted_distinct_set_unique) (simp_all add: strict_sorted_iff)

lemma stepped_as_map:
  assumes "0 < i_step"
  shows "stepped (i_start + a * i_step) (i_start + c * i_step - 1) i_step =
         map (\<lambda>j. i_start + j * i_step) [a..c - 1]"
proof (rule strict_sorted_unique)
  show "sorted_wrt (<) (stepped (i_start + a * i_step) (i_start + c * i_step - 1) i_step)"
    by (rule stepped_sorted)
  show "sorted_wrt (<) (map (\<lambda>j. i_start + j * i_step) [a..c - 1])"
    by (rule strict_sorted_map_stride[OF assms])
  have "{a..c - 1} = {a..<c}" by auto
  then show "set (stepped (i_start + a * i_step) (i_start + c * i_step - 1) i_step) =
        set (map (\<lambda>j. i_start + j * i_step) [a..c - 1])"
    by (simp add: stepped_block[OF assms])
qed

lemma stepped_full_map:
  assumes "0 < i_step"
  shows "stepped i_start i_end i_step =
         map (\<lambda>j. i_start + j * i_step) [0..(i_end - i_start) div i_step + 1 - 1]"
proof (rule strict_sorted_unique)
  show "sorted_wrt (<) (stepped i_start i_end i_step)"
    by (rule stepped_sorted)
  show "sorted_wrt (<) (map (\<lambda>j. i_start + j * i_step) [0..(i_end - i_start) div i_step + 1 - 1])"
    by (rule strict_sorted_map_stride[OF assms])
  have "{0..(i_end - i_start) div i_step + 1 - 1} = {0..<(i_end - i_start) div i_step + 1}" by auto
  then show "set (stepped i_start i_end i_step) =
        set (map (\<lambda>j. i_start + j * i_step) [0..(i_end - i_start) div i_step + 1 - 1])"
    by (simp add: stepped_full[OF assms])
qed

lemma concat_blocks:
  fixes B :: "nat \<Rightarrow> int"
  assumes "\<And>t. B t \<le> B (Suc t)"
  shows "concat (map (\<lambda>t. map f [B t..B (Suc t) - 1]) [0..<n]) = map f [B 0..B n - 1]"
proof (induction n)
  case 0
  then show ?case by simp
next
  case (Suc n)
  have mono: "B 0 \<le> B n" by (induction n) (auto intro: order_trans assms)
  have "[B 0..B (Suc n) - 1] = [B 0..B n - 1] @ [B n..B (Suc n) - 1]"
  proof (cases "B n = B (Suc n)")
    case True
    then show ?thesis by simp
  next
    case False
    then have "B n \<le> B (Suc n) - 1" using assms[of n] by simp
    with mono show ?thesis by (intro upto_split1) auto
  qed
  with Suc show ?case by simp
qed

lemma plan_facts:
  assumes "0 \<le> i_start" and "i_start \<le> i_end" and "0 < i_step"
    and "i_start + ((i_end - i_start) div i_step + 1) * i_step \<le> INT_MAX"
    and "8 * ((i_end - i_start) div i_step + 1) \<le> INT_MAX"
    and "i_end < int (length U)"
  shows "\<exists>segs. segments [0..<NB_THREADS] i_start i_end i_step = Inr segs \<and>
           length segs = NB_THREADS \<and>
           concat (map (\<lambda>t. stepped (fst (segs ! t)) (snd (segs ! t)) i_step) [0..<NB_THREADS]) =
             stepped i_start i_end i_step \<and>
           (\<forall>t<NB_THREADS. segment_safe U i_step (segs ! t))"
proof -
  define m where "m = (i_end - i_start) div i_step + 1"
  define B where "B t = int t * m div 8" for t :: nat
  define f where "f j = i_start + j * i_step" for j :: int
  define g where "g t = (B t * i_step + i_start, B (Suc t) * i_step + i_start - 1)" for t :: nat
  define segs where "segs = map g [0..<8]"
  have m1: "1 \<le> m" using assms(2,3) by (simp add: m_def pos_imp_zdiv_nonneg_iff)
  have B0: "B 0 = 0" and B8: "B 8 = m" by (simp_all add: B_def)
  have Bmono: "B t \<le> B (Suc t)" for t
    unfolding B_def using m1 by (intro zdiv_mono1 mult_right_mono) auto
  have gform: "g t = (int t * m div 8 * i_step + i_start, (int t + 1) * m div 8 * i_step + i_start - 1)"
    for t by (simp add: g_def B_def add.commute)
  have plan: "segments [0..<NB_THREADS] i_start i_end i_step = Inr segs"
    unfolding segs_def NB_THREADS_def
    using segments_ok[OF assms(1-5), of "[0..<8]"] by (simp add: gform[abs_def] m_def)
  have len: "length segs = NB_THREADS" by (simp add: segs_def NB_THREADS_def)
  have nth: "segs ! t = g t" if "t < 8" for t
    using that by (simp add: segs_def del: upt_Suc)
  have blk: "stepped (fst (g t)) (snd (g t)) i_step = map f [B t..B (Suc t) - 1]" for t
    using stepped_as_map[OF assms(3), of i_start "B t" "B (Suc t)"]
    by (simp add: g_def f_def[abs_def] add.commute)
  have "concat (map (\<lambda>t. stepped (fst (segs ! t)) (snd (segs ! t)) i_step) [0..<8]) =
        concat (map (\<lambda>t. map f [B t..B (Suc t) - 1]) [0..<8])"
    by (intro arg_cong[where f = concat] map_cong refl) (simp add: nth blk)
  also have "\<dots> = map f [B 0..B 8 - 1]" using Bmono by (rule concat_blocks)
  also have "\<dots> = stepped i_start i_end i_step"
    using stepped_full_map[OF assms(3), of i_start i_end] by (simp add: B0 B8 f_def[abs_def] m_def)
  finally have cat: "concat (map (\<lambda>t. stepped (fst (segs ! t)) (snd (segs ! t)) i_step) [0..<NB_THREADS]) =
             stepped i_start i_end i_step"
    by (simp add: NB_THREADS_def)
  have safe: "segment_safe U i_step (segs ! t)" if t: "t < NB_THREADS" for t
    unfolding segment_safe_def list_all_iff
  proof
    fix x assume "x \<in> set (stepped (fst (segs ! t)) (snd (segs ! t)) i_step)"
    then have "x \<in> set (concat (map (\<lambda>t. stepped (fst (segs ! t)) (snd (segs ! t)) i_step) [0..<NB_THREADS]))"
      using t by auto
    then have "x \<in> set (stepped i_start i_end i_step)" by (simp only: cat)
    then obtain j where j: "0 \<le> j" "j < m" "x = i_start + j * i_step"
      by (auto simp: stepped_full[OF assms(3)] m_def)
    have "(j + 1) * i_step \<le> m * i_step" using j(2) assms(3) by (intro mult_right_mono) auto
    then have up: "x + i_step \<le> INT_MAX" using j(3) assms(4) by (simp add: m_def algebra_simps)
    have "j * i_step \<le> (i_end - i_start) div i_step * i_step"
      using j(2) assms(3) by (intro mult_right_mono) (auto simp: m_def)
    also have "\<dots> \<le> i_end - i_start" using assms(3) by (rule div_bounds)
    finally have "x \<le> i_end" using j(3) by linarith
    moreover have "0 \<le> j * i_step" using j(1) assms(3) by simp
    ultimately show "0 \<le> x \<and> x < int (length U) \<and> x + i_step \<le> INT_MAX"
      using up assms(1,6) j(3) by linarith
  qed
  from plan len cat safe show ?thesis by blast
qed

lemma initial_inv:
  assumes "length segs = NB_THREADS" and "\<not> stop_threads g"
  shows "scalar_inv U val i_step segs k
           \<lparr>glob = g\<lparr>nb_find_thread := replicate NB_THREADS 0, U_threads := U, val_threads := val\<rparr>,
            workers = map (new_worker i_step) segs,
            watcher = (if k \<ge> 0 then Sleeping else NotStarted)\<rparr>"
  using assms
  by (auto simp: scalar_inv_def scalar_worker_ok_def watcher_ok_def new_worker_def)

lemma concat_ind_inv:
  assumes "scalar_inv U val i_step segs k c"
  shows "concat_ind c = concat (map (\<lambda>t. w_ind (workers c ! t)) [0..<NB_THREADS])"
  unfolding concat_ind_def
  by (intro arg_cong[where f = concat] map_cong refl)
     (simp add: worker_found_prefix(2)[OF assms])

lemma int_sum_list: "(\<Sum>t\<leftarrow>ts. int (f t)) = int (\<Sum>t\<leftarrow>ts. f t)"
  by (induction ts) simp_all

lemma sum_counts_inv:
  assumes "scalar_inv U val i_step segs k c"
  shows "sum_list (nb_find_thread (glob c)) =
         int (length (concat (map (\<lambda>t. w_ind (workers c ! t)) [0..<NB_THREADS])))"
proof -
  have len: "length (nb_find_thread (glob c)) = NB_THREADS"
    using assms by (simp add: scalar_inv_def)
  have "nb_find_thread (glob c) = map (\<lambda>t. nb_find_thread (glob c) ! t) [0..<NB_THREADS]"
    using len by (metis map_nth)
  also have "\<dots> = map (\<lambda>t. int (length (w_ind (workers c ! t)))) [0..<NB_THREADS]"
    by (intro map_cong refl) (simp add: worker_found_prefix(2)[OF assms])
  finally have "sum_list (nb_find_thread (glob c)) =
      (\<Sum>t\<leftarrow>[0..<NB_THREADS]. int (length (w_ind (workers c ! t))))"
    by simp
  also have "\<dots> = int (\<Sum>t\<leftarrow>[0..<NB_THREADS]. length (w_ind (workers c ! t)))"
    by (rule int_sum_list)
  finally show ?thesis by (simp add: length_concat o_def)
qed


lemma thread_find_scalar_fresh:
  assumes "0 \<le> i_start" and "i_start \<le> i_end" and "0 < i_step"
    and "i_start + ((i_end - i_start) div i_step + 1) * i_step \<le> INT_MAX"
    and "8 * ((i_end - i_start) div i_step + 1) \<le> INT_MAX"
    and "i_end < int (length U)"
    and fresh: "\<not> stop_threads g"
  shows "\<exists>ind g'.
           thread_find sched g U i_start i_end i_step val k 0 = Some (Inr (int (length ind), ind), g') \<and>
           stop_threads g' \<and>
           subseq ind (filter (\<lambda>x. U ! nat x = val) (stepped i_start i_end i_step)) \<and>
           length ind =
             (if 0 \<le> k \<and> k < int (length (filter (\<lambda>x. U ! nat x = val) (stepped i_start i_end i_step)))
              then nat k
              else length (filter (\<lambda>x. U ! nat x = val) (stepped i_start i_end i_step)))"
proof -
  let ?P = "\<lambda>x. U ! nat x = val"
  let ?FULL = "filter ?P (stepped i_start i_end i_step)"
  from plan_facts[OF assms(1-6)]
  obtain segs where segs: "segments [0..<NB_THREADS] i_start i_end i_step = Inr segs"
      and len: "length segs = NB_THREADS"
      and cat: "concat (map (\<lambda>t. stepped (fst (segs ! t)) (snd (segs ! t)) i_step) [0..<NB_THREADS]) =
             stepped i_start i_end i_step"
      and safe: "\<And>t. t < NB_THREADS \<Longrightarrow> segment_safe U i_step (segs ! t)"
    by blast
  let ?full = "\<lambda>t. filter ?P (stepped (fst (segs ! t)) (snd (segs ! t)) i_step)"
  let ?g1 = "g\<lparr>nb_find_thread := replicate NB_THREADS 0, U_threads := U, val_threads := val\<rparr>"
  let ?c0 = "\<lparr>glob = ?g1, workers = map (new_worker i_step) segs,
              watcher = (if k \<ge> 0 then Sleeping else NotStarted)\<rparr>"
  have inv0: "scalar_inv U val i_step segs k ?c0"
    by (rule initial_inv[OF len fresh])
  from run_sched_inv[OF safe assms(3) inv0, of sched]
  obtain c1 where c1: "run_sched scalar_thread_function k sched ?c0 = Inr c1"
      "scalar_inv U val i_step segs k c1" by blast
  from join_loop_inv[OF safe assms(3) c1(2), of "[0..<NB_THREADS]" 0]
  obtain c2 nb' where c2: "join_loop scalar_thread_function [0..<NB_THREADS] c1 0 = Some (Inr (c2, nb'))"
      "scalar_inv U val i_step segs k c2" "advances c1 c2"
      "stop_threads (glob c2) = stop_threads (glob c1)"
      "\<forall>t\<in>set [0..<NB_THREADS]. w_pc (workers c2 ! t) = Exited"
      "0 + (\<Sum>t\<leftarrow>[0..<NB_THREADS]. nb_find_thread (glob c1) ! t) \<le> nb'"
      "\<not> stop_threads (glob c1) \<longrightarrow> nb' = 0 + (\<Sum>t\<leftarrow>[0..<NB_THREADS]. int (length (?full t)))"
    by auto
  let ?W = "concat (map (\<lambda>t. w_ind (workers c2 ! t)) [0..<NB_THREADS])"
  have W: "concat_ind c2 = ?W" by (rule concat_ind_inv[OF c2(2)])
  have fullcat: "concat (map ?full [0..<NB_THREADS]) = ?FULL"
    using arg_cong[OF cat, of "filter ?P"] by (simp add: filter_concat o_def)
  have "subseq ?W (concat (map ?full [0..<NB_THREADS]))"
    by (rule subseq_concat_map) (auto intro: prefix_imp_subseq worker_found_prefix(1)[OF c2(2)])
  then have subW: "subseq ?W ?FULL" by (simp only: fullcat)
  have lenfull: "(\<Sum>t\<leftarrow>[0..<NB_THREADS]. int (length (?full t))) = int (length ?FULL)"
    using arg_cong[OF fullcat, of length] by (simp add: length_concat o_def int_sum_list)
  have run: "thread_find sched g U i_start i_end i_step val k 0 =
        (if k \<ge> 0 \<and> nb' > k
         then Some (Inr (k, take (nat k) ?W), (glob c2)\<lparr>stop_threads := True\<rparr>)
         else Some (Inr (nb', ?W), (glob c2)\<lparr>stop_threads := True\<rparr>))"
    unfolding thread_find_def dispatch_def by (simp add: segs Let_def c1(1) c2(1) W)
  show ?thesis
  proof (cases "stop_threads (glob c1)")
    case True
    then have k: "0 \<le> k" "k < sum_list (nb_find_thread (glob c1))"
      using c1(2) by (simp_all add: scalar_inv_def)
    have l1: "length (nb_find_thread (glob c1)) = NB_THREADS"
      using c1(2) by (simp add: scalar_inv_def)
    have s1: "sum_list (nb_find_thread (glob c1)) = (\<Sum>t\<leftarrow>[0..<NB_THREADS]. nb_find_thread (glob c1) ! t)"
      using l1 by (metis map_nth)
    have knb: "k < nb'" using k(2) c2(6) s1 by simp
    have l2: "length (nb_find_thread (glob c2)) = NB_THREADS"
      using c2(2) by (simp add: scalar_inv_def)
    have "sum_list (nb_find_thread (glob c1)) \<le> sum_list (nb_find_thread (glob c2))"
      using c2(3) l1 l2 by (intro sum_list_mono2) (auto simp: advances_def)
    then have kW: "k < int (length ?W)"
      using k(2) sum_counts_inv[OF c2(2)] by simp
    have "length ?W \<le> length ?FULL"
      using subW by (rule list_emb_length)
    then have kF: "k < int (length ?FULL)" using kW by simp
    have "subseq (take (nat k) ?W) ?W"
      by (rule prefix_imp_subseq) (rule take_is_prefix)
    then have "subseq (take (nat k) ?W) ?FULL"
      using subW by (rule subseq_order.order_trans)
    moreover have "nat k \<le> length ?W" using kW k(1) by linarith
    then have lt: "length (take (nat k) ?W) = nat k" by simp
    moreover have "thread_find sched g U i_start i_end i_step val k 0 =
        Some (Inr (k, take (nat k) ?W), (glob c2)\<lparr>stop_threads := True\<rparr>)"
      using run k(1) knb by simp
    then have "thread_find sched g U i_start i_end i_step val k 0 =
        Some (Inr (int (length (take (nat k) ?W)), take (nat k) ?W), (glob c2)\<lparr>stop_threads := True\<rparr>)"
      unfolding lt using k(1) by simp
    ultimately show ?thesis using k(1) kF by (intro exI conjI) (assumption, simp_all)
  next
    case False
    have nb: "nb' = int (length ?FULL)" using c2(7) False lenfull by simp
    have ns2: "\<not> stop_threads (glob c2)" using False c2(4) by simp
    have "w_ind (workers c2 ! t) = ?full t" if "t < NB_THREADS" for t
      using worker_found_all[OF c2(2) that _ ns2] c2(5) that by simp
    then have "?W = concat (map ?full [0..<NB_THREADS])"
      by (intro arg_cong[where f = concat] map_cong refl) simp
    then have WF: "?W = ?FULL" by (simp only: fullcat)
    show ?thesis
    proof (cases "0 \<le> k \<and> k < int (length ?FULL)")
      case True
      have "subseq (take (nat k) ?FULL) ?FULL"
        by (rule prefix_imp_subseq) (rule take_is_prefix)
      moreover have "nat k \<le> length ?FULL" using True by linarith
      then have lt: "length (take (nat k) ?FULL) = nat k" by simp
      moreover have "thread_find sched g U i_start i_end i_step val k 0 =
          Some (Inr (k, take (nat k) ?FULL), (glob c2)\<lparr>stop_threads := True\<rparr>)"
        using run True nb WF by simp
      then have "thread_find sched g U i_start i_end i_step val k 0 =
          Some (Inr (int (length (take (nat k) ?FULL)), take (nat k) ?FULL),
                (glob c2)\<lparr>stop_threads := True\<rparr>)"
        unfolding lt using True by simp
      ultimately show ?thesis using True by (intro exI conjI) (assumption, simp_all)
    next
      case nk: False
      have "thread_find sched g U i_start i_end i_step val k 0 =
          Some (Inr (int (length ?FULL), ?FULL), (glob c2)\<lparr>stop_threads := True\<rparr>)"
        using run nk nb WF by auto
      then show ?thesis using nk by (intro exI conjI) (assumption, auto)
    qed
  qed
qed

text \<open>
  Claim C7, as the code has it. Take the scalar thread function, a valid range within the
  limits of \<open>int\<close>, and two calls with the same inputs, each started with \<open>stop_threads\<close>
  clear, under any two schedules. Both return, with the same count: the number \<open>raw\<close> of
  matches that \<open>find\<close> returns, or \<open>k\<close> when \<open>0 \<le> k < raw\<close>. Each returned index array is an
  ascending selection of the matches \<open>find\<close> returns, of that length. Without threshold,
  or when the threshold is not reached, both arrays are all the matches; when
  \<open>0 \<le> k < raw\<close> the theorem does not say which \<open>k\<close> matches are returned.
\<close>

theorem fresh_scalar_calls_agree:
  assumes "0 \<le> i_start" and "i_start \<le> i_end" and "i_end < int (length U)" and "0 < i_step"
    and "i_start + ((i_end - i_start) div i_step + 1) * i_step \<le> INT_MAX"
    and "8 * ((i_end - i_start) div i_step + 1) \<le> INT_MAX"
    and "\<not> stop_threads g1" and "\<not> stop_threads g2"
  shows "\<exists>raw full ind1 ind2 g1' g2'.
           find_c U i_start i_end i_step val = Some (Inr (raw, full)) \<and>
           thread_find sched1 g1 U i_start i_end i_step val k 0 =
             Some (Inr (if 0 \<le> k \<and> k < raw then k else raw, ind1), g1') \<and>
           thread_find sched2 g2 U i_start i_end i_step val k 0 =
             Some (Inr (if 0 \<le> k \<and> k < raw then k else raw, ind2), g2') \<and>
           int (length ind1) = (if 0 \<le> k \<and> k < raw then k else raw) \<and>
           int (length ind2) = (if 0 \<le> k \<and> k < raw then k else raw) \<and>
           subseq ind1 full \<and> subseq ind2 full \<and>
           (k < 0 \<or> raw \<le> k \<longrightarrow> ind1 = full \<and> ind2 = full)"
proof -
  let ?full = "filter (\<lambda>x. U ! nat x = val) (stepped i_start i_end i_step)"
  let ?n = "if 0 \<le> k \<and> k < int (length ?full) then k else int (length ?full)"
  have f: "find_c U i_start i_end i_step val = Some (Inr (int (length ?full), ?full))"
    unfolding find_c_def using assms by (subst find_loop_stepped) auto
  have call: "\<exists>ind g'. thread_find sched g U i_start i_end i_step val k 0 = Some (Inr (?n, ind), g') \<and>
                int (length ind) = ?n \<and> subseq ind ?full \<and>
                (k < 0 \<or> int (length ?full) \<le> k \<longrightarrow> ind = ?full)"
    if "\<not> stop_threads g" for sched g
  proof -
    from thread_find_scalar_fresh[OF assms(1,2,4,5,6,3) that, of sched val k]
    obtain ind g' where r:
      "thread_find sched g U i_start i_end i_step val k 0 = Some (Inr (int (length ind), ind), g')"
      "subseq ind ?full"
      "length ind = (if 0 \<le> k \<and> k < int (length ?full) then nat k else length ?full)"
      by blast
    have n: "int (length ind) = ?n" using r(3) by auto
    have "ind = ?full" if "k < 0 \<or> int (length ?full) \<le> k"
      using that r(2,3) by (intro subseq_same_length) auto
    with r n show ?thesis by auto
  qed
  from call[OF assms(7), of sched1] call[OF assms(8), of sched2] f
  show ?thesis by blast
qed

theorem fresh_scalar_calls_agree_witness:
  "(0::int) \<le> 0 \<and> (0::int) \<le> 5 \<and> 5 < int (length [5, 2, 5, 5, 1, 5 :: word32]) \<and> (0::int) < 1 \<and>
   0 + ((5 - 0) div 1 + 1) * 1 \<le> INT_MAX \<and> 8 * ((5 - 0) div 1 + 1) \<le> INT_MAX \<and>
   \<not> stop_threads initial_globals \<and>
   (\<exists>raw full ind1 ind2 g1' g2'.
      find_c [5, 2, 5, 5, 1, 5] 0 5 1 5 = Some (Inr (raw, full)) \<and>
      thread_find [] initial_globals [5, 2, 5, 5, 1, 5] 0 5 1 5 2 0 =
        Some (Inr (if 0 \<le> (2::int) \<and> 2 < raw then 2 else raw, ind1), g1') \<and>
      thread_find [Worker 3, Worker 5, Worker 7, Watcher, Watcher, Watcher, Watcher, Watcher,
                   Watcher, Watcher, Watcher, Watcher, Watcher]
          initial_globals [5, 2, 5, 5, 1, 5] 0 5 1 5 2 0 =
        Some (Inr (if 0 \<le> (2::int) \<and> 2 < raw then 2 else raw, ind2), g2') \<and>
      int (length ind1) = (if 0 \<le> (2::int) \<and> 2 < raw then 2 else raw) \<and>
      int (length ind2) = (if 0 \<le> (2::int) \<and> 2 < raw then 2 else raw) \<and>
      subseq ind1 full \<and> subseq ind2 full \<and>
      ((2::int) < 0 \<or> raw \<le> 2 \<longrightarrow> ind1 = full \<and> ind2 = full))"
  using fresh_scalar_calls_agree [of 0 5 "[5, 2, 5, 5, 1, 5]" 1 initial_globals initial_globals 5
          "[]" 2 "[Worker 3, Worker 5, Worker 7, Watcher, Watcher, Watcher, Watcher, Watcher,
                   Watcher, Watcher, Watcher, Watcher, Watcher]"]
  by (simp add: INT_MAX_def initial_globals_def)

text \<open>
  Claim C7 as stated fails, also for two calls that both start with the flag clear: with
  threshold 2, the execution in which the threads of the last segments find three matches
  before the watcher sums the counters returns the indices 2 and 3, where the execution
  in which every thread runs to its end returns 0 and 2, the first two matches.
\<close>

theorem early_stop_selection_counterexample:
  "thread_find [] initial_globals [5, 2, 5, 5, 1, 5] 0 5 1 5 2 0 =
     Some (Inr (2, [0, 2]),
           \<lparr>stop_threads = True, nb_find_thread = [0, 1, 0, 1, 0, 1, 0, 1],
            U_threads = [5, 2, 5, 5, 1, 5], val_threads = 5\<rparr>) \<and>
   thread_find [Worker 3, Worker 5, Worker 7, Watcher, Watcher, Watcher, Watcher, Watcher,
                Watcher, Watcher, Watcher, Watcher, Watcher]
       initial_globals [5, 2, 5, 5, 1, 5] 0 5 1 5 2 0 =
     Some (Inr (2, [2, 3]),
           \<lparr>stop_threads = True, nb_find_thread = [0, 0, 0, 1, 0, 1, 0, 1],
            U_threads = [5, 2, 5, 5, 1, 5], val_threads = 5\<rparr>) \<and>
   set [0, 2 :: int] \<noteq> set [2, 3]"
  by code_simp

end
